theory Spec2Isabelle
  imports Main
begin

section \<open>Values, blocks and errors\<close>

text \<open>
  A tagged value of the engine. The stage only ever inspects the tags \<open>Nothing\<close>,
  \<open>Boolean\<close> and \<open>valueBlock\<close>; every other value is opaque to it. Equality of
  group-by keys (\<open>MaterializedRowEq\<close>) is equality of the rows of tagged values.
\<close>

datatype Val = Nothing | Boolean bool | NumberInt64 int | StringBig string

text \<open>
  What an input slot holds: a block (tag \<open>valueBlock\<close>) or a scalar. A block is the
  list of its values (what \<open>extract()\<close> returns); its \<open>count()\<close> is the length.
\<close>

datatype SlotVal = Scalar Val | ValueBlock "Val list"

text \<open>
  Fatal outcomes. \<open>InvariantFailure\<close> is a failed \<open>invariant(...)\<close>, \<open>TAssert n\<close> a
  failed \<open>tassert(n, ...)\<close>. The source indexes vectors and deblocked arrays without a
  bounds check; an out-of-range read is undefined there, and the model makes it the
  outcome \<open>OutOfBounds\<close> so that nothing can be concluded from it.
\<close>

datatype Error = InvariantFailure | TAssert nat | OutOfBounds

type_synonym MaterializedRow = "Val list"
type_synonym SlotId = nat
type_synonym TableType = "MaterializedRow \<rightharpoonup> MaterializedRow"
type_synonym SpillRecord = "MaterializedRow \<times> MaterializedRow"

text \<open>\<open>value::TokenizedBlock\<close>: the distinct tokens of a column and, per row, the position of its token.\<close>

record TokenizedBlock =
  tokens :: "Val list"
  idxs :: "nat list"

text \<open>\<open>BlockHashAggStage::TokenizedKeys\<close> (\<open>keys\<close>, \<open>idxs\<close>); the second field is named \<open>keyIdxs\<close> here.\<close>

record TokenizedKeys =
  keys :: "MaterializedRow list"
  keyIdxs :: "nat list"

definition readAt :: "'a list \<Rightarrow> nat \<Rightarrow> Error + 'a" where
  "readAt xs i = (if i < length xs then Inr (xs ! i) else Inl OutOfBounds)"

text \<open>A loop that fills a vector element by element and stops at the first fatal outcome.\<close>

fun mapE :: "('a \<Rightarrow> Error + 'b) \<Rightarrow> 'a list \<Rightarrow> Error + 'b list" where
  "mapE f [] = Inr []"
| "mapE f (x # xs) =
     (case f x of
        Inl e \<Rightarrow> Inl e
      | Inr y \<Rightarrow> (case mapE f xs of Inl e \<Rightarrow> Inl e | Inr ys \<Rightarrow> Inr (y # ys)))"

section \<open>The stage and its state\<close>

text \<open>
  The compiled accumulator expressions are opaque callables. A block-level expression
  reads the bound selection bitset, the bound data blocks and the previous value of its
  own accumulator; a row-level expression reads the bound scalar inputs of one row and
  the previous value; a merging expression reads the previous value and one spilled
  partial value.
\<close>

type_synonym BlockAgg = "Val list \<Rightarrow> Val list list \<Rightarrow> Val \<Rightarrow> Val"
type_synonym RowAgg = "Val list \<Rightarrow> Val \<Rightarrow> Val"
type_synonym MergeExpr = "Val \<Rightarrow> Val \<Rightarrow> Val"

text \<open>
  The constructor arguments of \<open>BlockHashAggStage\<close> that the execution reads, followed
  by what the file uses but does not define: the two constants of \<open>block_hashagg.h\<close>
  (\<open>kMaxNumPartitionsForTokenizedPath\<close>, \<open>kBlockOutSize\<close>), \<open>ValueBlock::tokenize\<close>, the
  memory estimate of \<open>checkMemoryUsageAndSpillIfNecessary\<close>, and the order in which
  the hash table \<open>_ht\<close> (an unordered map) is iterated. They are parameters.
\<close>

record Stage =
  groupSlots :: "SlotId list"
  blockBitsetInSlotId :: SlotId
  blockDataInSlotIds :: "SlotId list"
  blockRowAggs :: "(BlockAgg \<times> RowAgg) list"
  mergingExprs :: "MergeExpr list"
  forceIncreasedSpilling :: bool
  kMaxNumPartitionsForTokenizedPath :: nat
  kBlockOutSize :: nat
  tokenize :: "Val list \<Rightarrow> TokenizedBlock"
  exceedsMemoryBudget :: "TableType \<Rightarrow> bool"
  htIter :: "TableType \<Rightarrow> SpillRecord list"

datatype PlanState = ADVANCED | IS_EOF

text \<open>
  The run-time members: \<open>_ht\<close>, \<open>_recordStore\<close> (\<open>None\<close> until the first spill; the
  records in append order), \<open>_rsCursor\<close> (the records the cursor has not returned
  yet), \<open>_stashedNextRow\<close>, the values of \<open>_rowAggRSAccessors\<close>, \<open>_htIt\<close> (\<open>None\<close> is
  \<open>_ht->end()\<close>, \<open>Some i\<close> the \<open>i\<close>-th entry in iteration order), \<open>_done\<close>, and the
  output of the last \<open>getNext\<close>: row \<open>r\<close> of \<open>outRows\<close> pairs the \<open>r\<close>-th values of the
  blocks \<open>_outIdBlocks\<close> with those of \<open>_outAggBlocks\<close>, and \<open>blockBitsetOut\<close> is the
  value of \<open>_blockBitsetOutAccessor\<close>.
\<close>

record State =
  ht :: TableType
  recordStore :: "SpillRecord list option"
  rsCursor :: "SpillRecord list"
  stashedNextRow :: "SpillRecord option"
  rowAggRS :: "Val list"
  htIt :: "nat option"
  isDone :: bool
  outRows :: "SpillRecord list"
  blockBitsetOut :: SlotVal

section \<open>Bitsets\<close>

fun allFalse :: "Val list \<Rightarrow> Error + bool" where
  "allFalse [] = Inr True"
| "allFalse (Boolean b # deblocked) = (if b then Inr False else allFalse deblocked)"
| "allFalse (_ # deblocked) = Inl InvariantFailure"

definition computeBitmapForPartition :: "nat list \<Rightarrow> nat \<Rightarrow> Val list" where
  "computeBitmapForPartition partitionMap partitionId =
     map (\<lambda>p. Boolean (p = partitionId)) partitionMap"

fun bitAndLoop :: "Val list \<Rightarrow> Val list \<Rightarrow> Error + Val list" where
  "bitAndLoop (Boolean x # vals1) (Boolean y # vals2) =
     (case bitAndLoop vals1 vals2 of
        Inl e \<Rightarrow> Inl e
      | Inr vecResult \<Rightarrow> Inr (Boolean (x \<and> y) # vecResult))"
| "bitAndLoop [] _ = Inr []"
| "bitAndLoop _ _ = Inl InvariantFailure"

definition bitAnd :: "Val list \<Rightarrow> Val list \<Rightarrow> Error + Val list" where
  "bitAnd vals1 vals2 =
     (if length vals1 \<noteq> length vals2 then Inl InvariantFailure else bitAndLoop vals1 vals2)"

section \<open>Tokenizing the group-by columns\<close>

text \<open>
  \<open>compoundKeys\<close> is the N x M vector of the source (N rows, M group-by columns);
  row \<open>blockIdx\<close> of it is the span \<open>htKey\<close> that \<open>keyMap\<close> is keyed by.
\<close>

definition compoundKeys :: "TokenizedBlock list \<Rightarrow> Error + nat list list" where
  "compoundKeys tokenInfos =
     mapE (\<lambda>blockIdx. mapE (\<lambda>ti. readAt (idxs ti) blockIdx) tokenInfos)
       [0..<length (idxs (hd tokenInfos))]"

definition materializeKey :: "Val list list \<Rightarrow> nat list \<Rightarrow> Error + MaterializedRow" where
  "materializeKey deblockedTokens htKey =
     mapE (\<lambda>keyIdx.
             case readAt deblockedTokens keyIdx of
               Inl e \<Rightarrow> Inl e
             | Inr toks \<Rightarrow> readAt toks (htKey ! keyIdx))
       [0..<length htKey]"

text \<open>
  The second loop of \<open>tokenizeTokenInfos\<close>, over the rows still to visit. \<open>keyMap\<close> maps
  a span to its ordinal; \<open>ks\<close> and \<open>ix\<close> are \<open>keys\<close> and the filled prefix of \<open>idxs\<close>.
\<close>

fun tokenizeRows ::
  "nat \<Rightarrow> Val list list \<Rightarrow> nat list list \<Rightarrow> (nat list \<rightharpoonup> nat) \<Rightarrow> nat \<Rightarrow>
   MaterializedRow list \<Rightarrow> nat list \<Rightarrow> Error + TokenizedKeys option" where
  "tokenizeRows kMax deblockedTokens [] keyMap uniqueCount ks ix =
     Inr (Some \<lparr>keys = ks, keyIdxs = ix\<rparr>)"
| "tokenizeRows kMax deblockedTokens (htKey # rest) keyMap uniqueCount ks ix =
     (case keyMap htKey of
        Some ordinal \<Rightarrow>
          tokenizeRows kMax deblockedTokens rest keyMap uniqueCount ks (ix @ [ordinal])
      | None \<Rightarrow>
          if uniqueCount + 1 > kMax then Inr None
          else (case materializeKey deblockedTokens htKey of
                  Inl e \<Rightarrow> Inl e
                | Inr key \<Rightarrow>
                    tokenizeRows kMax deblockedTokens rest (keyMap(htKey \<mapsto> uniqueCount))
                      (uniqueCount + 1) (ks @ [key]) (ix @ [uniqueCount])))"

definition tokenizeTokenInfos ::
  "nat \<Rightarrow> TokenizedBlock list \<Rightarrow> Val list list \<Rightarrow> Error + TokenizedKeys option" where
  "tokenizeTokenInfos kMax tokenInfos deblockedTokens =
     (if tokenInfos = [] then Inl InvariantFailure
      else (case compoundKeys tokenInfos of
              Inl e \<Rightarrow> Inl e
            | Inr cks \<Rightarrow> tokenizeRows kMax deblockedTokens cks Map.empty 0 [] []))"

text \<open>The loop of \<open>tryTokenizeGbs\<close>: tokenize each group-by block and check its size.\<close>

fun tokenizeGbs :: "(Val list \<Rightarrow> TokenizedBlock) \<Rightarrow> nat \<Rightarrow> Val list list \<Rightarrow> Error + TokenizedBlock list" where
  "tokenizeGbs tok currentBlockSize [] = Inr []"
| "tokenizeGbs tok currentBlockSize (gb # gbBlocks) =
     (if length (idxs (tok gb)) \<noteq> currentBlockSize then Inl (TAssert 8608600)
      else (case tokenizeGbs tok currentBlockSize gbBlocks of
              Inl e \<Rightarrow> Inl e
            | Inr tokenInfos \<Rightarrow> Inr (tok gb # tokenInfos)))"

definition tryTokenizeGbs :: "Stage \<Rightarrow> Val list list \<Rightarrow> nat \<Rightarrow> Error + TokenizedKeys option" where
  "tryTokenizeGbs st gbBlocks currentBlockSize =
     (case tokenizeGbs (tokenize st) currentBlockSize gbBlocks of
        Inl e \<Rightarrow> Inl e
      | Inr tokenInfos \<Rightarrow>
          tokenizeTokenInfos (kMaxNumPartitionsForTokenizedPath st) tokenInfos
            (map tokens tokenInfos))"

section \<open>Running the accumulators on one input block\<close>

text \<open>
  The accumulator row of a key that is not in the table yet:
  \<open>it->second.resize(_rowAggAccessors.size())\<close>, a row of \<open>Nothing\<close>.
\<close>

definition lookupOrInit :: "Stage \<Rightarrow> TableType \<Rightarrow> MaterializedRow \<Rightarrow> MaterializedRow" where
  "lookupOrInit st table key =
     (case table key of
        None \<Rightarrow> replicate (length (blockRowAggs st)) Nothing
      | Some row \<Rightarrow> row)"

definition runBlockAggs :: "Stage \<Rightarrow> Val list \<Rightarrow> Val list list \<Rightarrow> MaterializedRow \<Rightarrow> MaterializedRow" where
  "runBlockAggs st accBitset dataBlocks row =
     map (\<lambda>i. fst (blockRowAggs st ! i) accBitset dataBlocks (row ! i))
       [0..<length (blockRowAggs st)]"

definition runRowAggs :: "Stage \<Rightarrow> Val list \<Rightarrow> MaterializedRow \<Rightarrow> MaterializedRow" where
  "runRowAggs st dataVals row =
     map (\<lambda>i. snd (blockRowAggs st ! i) dataVals (row ! i))
       [0..<length (blockRowAggs st)]"

definition executeBlockLevelAccumulatorCode ::
  "Stage \<Rightarrow> Val list \<Rightarrow> Val list list \<Rightarrow> MaterializedRow \<Rightarrow> TableType \<Rightarrow> Error + TableType" where
  "executeBlockLevelAccumulatorCode st accBitset dataBlocks key table =
     (case allFalse accBitset of
        Inl e \<Rightarrow> Inl e
      | Inr True \<Rightarrow> Inr table
      | Inr False \<Rightarrow>
          Inr (table(key \<mapsto> runBlockAggs st accBitset dataBlocks (lookupOrInit st table key))))"

text \<open>The loop of \<open>executeRowLevelAccumulatorCode\<close> over the block indices still to visit.\<close>

fun executeRowLevelAccumulatorCode ::
  "Stage \<Rightarrow> Val list \<Rightarrow> Val list list \<Rightarrow> Val list list \<Rightarrow> nat list \<Rightarrow> TableType \<Rightarrow>
   Error + TableType" where
  "executeRowLevelAccumulatorCode st extractedBitmap extractedGbs extractedData [] table =
     Inr table"
| "executeRowLevelAccumulatorCode st extractedBitmap extractedGbs extractedData
     (blockIndex # rest) table =
     (case readAt extractedBitmap blockIndex of
        Inl e \<Rightarrow> Inl e
      | Inr (Boolean bitVal) \<Rightarrow>
          if \<not> bitVal then
            executeRowLevelAccumulatorCode st extractedBitmap extractedGbs extractedData rest table
          else
            (case mapE (\<lambda>gb. readAt gb blockIndex) extractedGbs of
               Inl e \<Rightarrow> Inl e
             | Inr key \<Rightarrow>
                 (case mapE (\<lambda>d. readAt d blockIndex) extractedData of
                    Inl e \<Rightarrow> Inl e
                  | Inr dataVals \<Rightarrow>
                      executeRowLevelAccumulatorCode st extractedBitmap extractedGbs
                        extractedData rest
                        (table(key \<mapsto> runRowAggs st dataVals (lookupOrInit st table key)))))
      | Inr _ \<Rightarrow> Inl InvariantFailure)"

definition runAccumulatorsElementWise ::
  "Stage \<Rightarrow> Val list \<Rightarrow> Val list list \<Rightarrow> Val list list \<Rightarrow> TableType \<Rightarrow> Error + TableType" where
  "runAccumulatorsElementWise st bitmapBlock gbBlocks dataBlocks table =
     executeRowLevelAccumulatorCode st bitmapBlock gbBlocks dataBlocks
       [0..<length bitmapBlock] table"

text \<open>The loop of \<open>runAccumulatorsTokenized\<close> over the partitions still to visit.\<close>

fun runPartitions ::
  "Stage \<Rightarrow> TokenizedKeys \<Rightarrow> Val list \<Rightarrow> Val list list \<Rightarrow> nat list \<Rightarrow> TableType \<Rightarrow>
   Error + TableType" where
  "runPartitions st tokenizedKeys bitmapBlock dataBlocks [] table = Inr table"
| "runPartitions st tokenizedKeys bitmapBlock dataBlocks (partitionId # rest) table =
     (case (if length (keys tokenizedKeys) > 1
            then bitAnd (computeBitmapForPartition (keyIdxs tokenizedKeys) partitionId)
                   bitmapBlock
            else Inr bitmapBlock) of
        Inl e \<Rightarrow> Inl e
      | Inr accBitset \<Rightarrow>
          (case readAt (keys tokenizedKeys) partitionId of
             Inl e \<Rightarrow> Inl e
           | Inr key \<Rightarrow>
               (case executeBlockLevelAccumulatorCode st accBitset dataBlocks key table of
                  Inl e \<Rightarrow> Inl e
                | Inr table' \<Rightarrow>
                    runPartitions st tokenizedKeys bitmapBlock dataBlocks rest table')))"

definition runAccumulatorsTokenized ::
  "Stage \<Rightarrow> TokenizedKeys \<Rightarrow> Val list \<Rightarrow> Val list list \<Rightarrow> TableType \<Rightarrow> Error + TableType" where
  "runAccumulatorsTokenized st tokenizedKeys bitmapBlock dataBlocks table =
     runPartitions st tokenizedKeys bitmapBlock dataBlocks
       [0..<length (keys tokenizedKeys)] table"

text \<open>
  The block a slot stands for: the block itself, or \<open>makeMonoBlock\<close> of a scalar
  (\<open>_currentBlockSize\<close> copies of it).
\<close>

definition slotBlock :: "nat \<Rightarrow> SlotVal \<Rightarrow> Val list" where
  "slotBlock currentBlockSize sv =
     (case sv of ValueBlock b \<Rightarrow> b | Scalar v \<Rightarrow> replicate currentBlockSize v)"

definition gbBlocksOf :: "Stage \<Rightarrow> (SlotId \<Rightarrow> SlotVal) \<Rightarrow> nat \<Rightarrow> Val list list" where
  "gbBlocksOf st env currentBlockSize =
     map (\<lambda>slot. slotBlock currentBlockSize (env slot)) (groupSlots st)"

definition dataBlocksOf :: "Stage \<Rightarrow> (SlotId \<Rightarrow> SlotVal) \<Rightarrow> nat \<Rightarrow> Val list list" where
  "dataBlocksOf st env currentBlockSize =
     map (\<lambda>slot. slotBlock currentBlockSize (env slot)) (blockDataInSlotIds st)"

text \<open>
  The first half of the body of the \<open>while\<close> loop of \<open>open\<close>, up to the memory check:
  one input batch \<open>env\<close> (the values of the child's slots) advances the table.
\<close>

definition accumulateBlock :: "Stage \<Rightarrow> (SlotId \<Rightarrow> SlotVal) \<Rightarrow> TableType \<Rightarrow> Error + TableType" where
  "accumulateBlock st env table =
     (case env (blockBitsetInSlotId st) of
        Scalar _ \<Rightarrow> Inl InvariantFailure
      | ValueBlock bitmapBlock \<Rightarrow>
          (let currentBlockSize = length bitmapBlock;
               gbBlocks = gbBlocksOf st env currentBlockSize;
               dataBlocks = dataBlocksOf st env currentBlockSize
           in case tryTokenizeGbs st gbBlocks currentBlockSize of
                Inl e \<Rightarrow> Inl e
              | Inr (Some tokenizedKeys) \<Rightarrow>
                  runAccumulatorsTokenized st tokenizedKeys bitmapBlock dataBlocks table
              | Inr None \<Rightarrow>
                  runAccumulatorsElementWise st bitmapBlock gbBlocks dataBlocks table))"

section \<open>Spilling and \<open>open\<close>\<close>

text \<open>
  Modelled from the spec: \<open>HashAggBaseStage::spill\<close> is not in this file. Section 4.3:
  spilling serializes every current (key, accumulator-state) pair as one record into
  the log (appended, never overwritten) and then clears the table entirely. The record
  store exists from the first spill on.
\<close>

definition spill :: "Stage \<Rightarrow> State \<Rightarrow> State" where
  "spill st s =
     s\<lparr>recordStore :=
         Some ((case recordStore s of None \<Rightarrow> [] | Some recs \<Rightarrow> recs) @ htIter st (ht s)),
       ht := Map.empty\<rparr>"

text \<open>
  Modelled from the spec: \<open>checkMemoryUsageAndSpillIfNecessary\<close> is not in this file.
  Section 4.3: estimate the current memory usage of the table and, if it exceeds the
  configured budget, spill.
\<close>

definition checkMemoryUsageAndSpillIfNecessary :: "Stage \<Rightarrow> State \<Rightarrow> State" where
  "checkMemoryUsageAndSpillIfNecessary st s =
     (if exceedsMemoryBudget st (ht s) then spill st s else s)"

text \<open>The \<open>while\<close> loop of \<open>open\<close> over the batches the child still returns.\<close>

fun consumeInput :: "Stage \<Rightarrow> (SlotId \<Rightarrow> SlotVal) list \<Rightarrow> State \<Rightarrow> Error + State" where
  "consumeInput st [] s = Inr s"
| "consumeInput st (env # envs) s =
     (case accumulateBlock st env (ht s) of
        Inl e \<Rightarrow> Inl e
      | Inr table \<Rightarrow>
          consumeInput st envs
            (if table \<noteq> Map.empty then
               (if forceIncreasedSpilling st then spill st (s\<lparr>ht := table\<rparr>)
                else checkMemoryUsageAndSpillIfNecessary st (s\<lparr>ht := table\<rparr>))
             else s\<lparr>ht := table\<rparr>))"

text \<open>What follows the loop: the final spill and the cursor, then \<open>_htIt = _ht->end()\<close>.\<close>

definition finishOpen :: "Stage \<Rightarrow> State \<Rightarrow> State" where
  "finishOpen st s =
     (case recordStore s of
        None \<Rightarrow> s\<lparr>htIt := None\<rparr>
      | Some _ \<Rightarrow>
          (let s' = (if ht s \<noteq> Map.empty then spill st s else s)
           in s'\<lparr>rsCursor := (case recordStore s' of None \<Rightarrow> [] | Some recs \<Rightarrow> recs),
                 htIt := None\<rparr>))"

definition openStage :: "Stage \<Rightarrow> bool \<Rightarrow> (SlotId \<Rightarrow> SlotVal) list \<Rightarrow> State \<Rightarrow> Error + State" where
  "openStage st reOpen envs s =
     (case consumeInput st envs (s\<lparr>ht := Map.empty, isDone := (if reOpen then False else isDone s)\<rparr>) of
        Inl e \<Rightarrow> Inl e
      | Inr s' \<Rightarrow> Inr (finishOpen st s'))"

text \<open>A stage that has been constructed and prepared but not opened yet.\<close>

definition initialState :: State where
  "initialState =
     \<lparr>ht = Map.empty, recordStore = None, rsCursor = [], stashedNextRow = None,
      rowAggRS = [], htIt = None, isDone = False, outRows = [],
      blockBitsetOut = Scalar Nothing\<rparr>"

section \<open>Producing the output\<close>

text \<open>\<open>processRow\<close> of \<open>getNextSpilledHelper\<close>: merge one spilled row into \<open>_rowAggRSAccessors\<close>.\<close>

definition processRow :: "Stage \<Rightarrow> Val list \<Rightarrow> MaterializedRow \<Rightarrow> Error + Val list" where
  "processRow st rs spilledAggRow =
     (if length spilledAggRow \<noteq> length (blockRowAggs st) then Inl InvariantFailure
      else mapE (\<lambda>idx.
                   case readAt (mergingExprs st) idx of
                     Inl e \<Rightarrow> Inl e
                   | Inr mergingExpr \<Rightarrow> Inr (mergingExpr (rs ! idx) (spilledAggRow ! idx)))
             [0..<length (blockRowAggs st)])"

text \<open>
  The \<open>for\<close> loop of \<open>getNextSpilledHelper\<close> over the records the cursor still returns;
  the result is the returned key, the merged values, the new stash and the cursor.
\<close>

fun mergeSameKey ::
  "Stage \<Rightarrow> MaterializedRow \<Rightarrow> Val list \<Rightarrow> SpillRecord list \<Rightarrow>
   Error + (MaterializedRow \<times> Val list \<times> SpillRecord option \<times> SpillRecord list)" where
  "mergeSameKey st firstKey rs [] = Inr (firstKey, rs, None, [])"
| "mergeSameKey st firstKey rs (recoveredRow # cursor) =
     (if fst recoveredRow \<noteq> firstKey then Inr (firstKey, rs, Some recoveredRow, cursor)
      else (case processRow st rs (snd recoveredRow) of
              Inl e \<Rightarrow> Inl e
            | Inr rs' \<Rightarrow> mergeSameKey st firstKey rs' cursor))"

definition getNextSpilledHelper :: "Stage \<Rightarrow> State \<Rightarrow> Error + (MaterializedRow option \<times> State)" where
  "getNextSpilledHelper st s =
     (let rs0 = replicate (length (blockRowAggs st)) Nothing;
          start = (case stashedNextRow s of
                     Some stashed \<Rightarrow> Some (stashed, rsCursor s)
                   | None \<Rightarrow>
                       (case rsCursor s of
                          [] \<Rightarrow> None
                        | nextRecord # cursor \<Rightarrow> Some (nextRecord, cursor)))
      in case start of
           None \<Rightarrow> Inr (None, s\<lparr>rowAggRS := rs0\<rparr>)
         | Some (firstRow, cursor) \<Rightarrow>
             (case processRow st rs0 (snd firstRow) of
                Inl e \<Rightarrow> Inl e
              | Inr rs1 \<Rightarrow>
                  (case mergeSameKey st (fst firstRow) rs1 cursor of
                     Inl e \<Rightarrow> Inl e
                   | Inr (key, rs, stash, cursor') \<Rightarrow>
                       Inr (Some key,
                            s\<lparr>rowAggRS := rs, stashedNextRow := stash, rsCursor := cursor'\<rparr>))))"

text \<open>The \<open>for\<close> loop of \<open>getNextSpilled\<close>; \<open>n\<close> is \<open>kBlockOutSize - resultIdx\<close>.\<close>

fun getNextSpilledLoop :: "Stage \<Rightarrow> nat \<Rightarrow> nat \<Rightarrow> State \<Rightarrow> Error + (nat \<times> State)" where
  "getNextSpilledLoop st 0 resultIdx s = Inr (resultIdx, s)"
| "getNextSpilledLoop st (Suc n) resultIdx s =
     (case getNextSpilledHelper st s of
        Inl e \<Rightarrow> Inl e
      | Inr (None, s') \<Rightarrow> Inr (resultIdx, s')
      | Inr (Some nextKey, s') \<Rightarrow>
          if length nextKey \<noteq> length (groupSlots st) then Inl InvariantFailure
          else getNextSpilledLoop st n (resultIdx + 1)
                 (s'\<lparr>outRows := outRows s' @ [(nextKey, rowAggRS s')]\<rparr>))"

definition populateBitmapSlot :: "nat \<Rightarrow> State \<Rightarrow> State" where
  "populateBitmapSlot n s = s\<lparr>blockBitsetOut := ValueBlock (replicate n (Boolean True))\<rparr>"

definition getNextSpilled :: "Stage \<Rightarrow> State \<Rightarrow> Error + (PlanState \<times> State)" where
  "getNextSpilled st s =
     (case getNextSpilledLoop st (kBlockOutSize st) 0 s of
        Inl e \<Rightarrow> Inl e
      | Inr (resultIdx, s') \<Rightarrow>
          if resultIdx = 0 then Inr (IS_EOF, s')
          else Inr (ADVANCED, populateBitmapSlot resultIdx s'))"

text \<open>
  The \<open>while\<close> loop of \<open>getNext\<close> over the live table; \<open>n\<close> is \<open>kBlockOutSize - numRows\<close>.
  The result carries \<open>numRows\<close> for the bitmap that is populated on exit.
\<close>

fun getNextFromTable :: "Stage \<Rightarrow> nat \<Rightarrow> nat \<Rightarrow> State \<Rightarrow> PlanState \<times> nat \<times> State" where
  "getNextFromTable st 0 numRows s = (ADVANCED, numRows, s)"
| "getNextFromTable st (Suc n) numRows s =
     (let entries = htIter st (ht s);
          it = (case htIt s of
                  None \<Rightarrow> (if entries = [] then None else Some 0)
                | Some i \<Rightarrow> (if i + 1 < length entries then Some (i + 1) else None));
          s1 = s\<lparr>htIt := it\<rparr>
      in if isDone s1 then (IS_EOF, numRows, s1)
         else (case it of
                 None \<Rightarrow> ((if numRows = 0 then IS_EOF else ADVANCED), numRows, s1\<lparr>isDone := True\<rparr>)
               | Some i \<Rightarrow>
                   getNextFromTable st n (numRows + 1)
                     (s1\<lparr>outRows := outRows s1 @ [entries ! i]\<rparr>)))"

definition getNext :: "Stage \<Rightarrow> State \<Rightarrow> Error + (PlanState \<times> State)" where
  "getNext st s =
     (let s0 = s\<lparr>outRows := []\<rparr>
      in if recordStore s0 \<noteq> None then getNextSpilled st s0
         else (case getNextFromTable st (kBlockOutSize st) 0 s0 of
                 (state, numRows, s') \<Rightarrow> Inr (state, populateBitmapSlot numRows s')))"

text \<open>
  The caller's loop: call \<open>getNext\<close> until it signals \<open>IS_EOF\<close> and collect the rows
  of every block it returned. \<open>fuel\<close> bounds the number of calls; \<open>None\<close> means the
  fuel ran out before \<open>IS_EOF\<close>.
\<close>

fun drain :: "Stage \<Rightarrow> nat \<Rightarrow> State \<Rightarrow> (Error + SpillRecord list) option" where
  "drain st 0 s = None"
| "drain st (Suc fuel) s =
     (case getNext st s of
        Inl e \<Rightarrow> Some (Inl e)
      | Inr (IS_EOF, s') \<Rightarrow> Some (Inr [])
      | Inr (ADVANCED, s') \<Rightarrow>
          (case drain st fuel s' of
             None \<Rightarrow> None
           | Some (Inl e) \<Rightarrow> Some (Inl e)
           | Some (Inr rows) \<Rightarrow> Some (Inr (outRows s' @ rows))))"

definition runStage :: "Stage \<Rightarrow> (SlotId \<Rightarrow> SlotVal) list \<Rightarrow> nat \<Rightarrow> (Error + SpillRecord list) option" where
  "runStage st envs fuel =
     (case openStage st False envs initialState of
        Inl e \<Rightarrow> Some (Inl e)
      | Inr s \<Rightarrow> drain st fuel s)"


section \<open>Notions used to state the properties\<close>

text \<open>
  The distinct elements of a list in the order of their first occurrence, and the
  position of the first occurrence of an element.
\<close>

fun firstSeenFrom :: "'a list \<Rightarrow> 'a list \<Rightarrow> 'a list" where
  "firstSeenFrom seen [] = seen"
| "firstSeenFrom seen (x # xs) = firstSeenFrom (if x \<in> set seen then seen else seen @ [x]) xs"

definition firstSeen :: "'a list \<Rightarrow> 'a list" where
  "firstSeen xs = firstSeenFrom [] xs"

definition indexOf :: "'a list \<Rightarrow> 'a \<Rightarrow> nat" where
  "indexOf xs x = length (takeWhile (\<lambda>y. y \<noteq> x) xs)"

text \<open>
  The state of \<open>keyMap\<close> once the spans \<open>seen\<close> have been inserted, in this order.
\<close>

definition seenMap :: "'a list \<Rightarrow> ('a \<rightharpoonup> nat)" where
  "seenMap seen = (\<lambda>ck. if ck \<in> set seen then Some (indexOf seen ck) else None)"

text \<open>
  The compound keys of the \<open>n\<close> rows of a block (row \<open>blockIdx\<close> is the tuple of its
  token indices), the number of distinct ones, and the row of tokens a compound key
  stands for.
\<close>

definition compoundKeyRows :: "nat \<Rightarrow> TokenizedBlock list \<Rightarrow> nat list list" where
  "compoundKeyRows n tokenInfos = map (\<lambda>blockIdx. map (\<lambda>ti. idxs ti ! blockIdx) tokenInfos) [0..<n]"

definition numPartitions :: "nat \<Rightarrow> TokenizedBlock list \<Rightarrow> nat" where
  "numPartitions n tokenInfos = length (remdups (compoundKeyRows n tokenInfos))"

definition tokenRow :: "TokenizedBlock list \<Rightarrow> nat list \<Rightarrow> MaterializedRow" where
  "tokenRow tokenInfos htKey = map (\<lambda>keyIdx. tokens (tokenInfos ! keyIdx) ! (htKey ! keyIdx)) [0..<length tokenInfos]"

text \<open>
  What \<open>tokenizeTokenInfos\<close> relies on: there is a group-by column, every index array
  has \<open>n\<close> entries, and every index points into the tokens of its column.
\<close>

definition tokenInfosInRange :: "nat \<Rightarrow> TokenizedBlock list \<Rightarrow> bool" where
  "tokenInfosInRange n tokenInfos =
     (tokenInfos \<noteq> [] \<and>
      (\<forall>ti \<in> set tokenInfos. length (idxs ti) = n \<and> (\<forall>i \<in> set (idxs ti). i < length (tokens ti))))"

text \<open>
  A block that holds only \<open>Boolean\<close> values (a selection bitset).
\<close>

definition isBoolBlock :: "Val list \<Rightarrow> bool" where
  "isBoolBlock b = list_all (\<lambda>v. case v of Boolean _ \<Rightarrow> True | _ \<Rightarrow> False) b"

text \<open>
  \<open>ti\<close> is a dictionary encoding of the block \<open>b\<close>: one index per row, pointing at the
  row's value among the tokens, and no token twice (section 3, token set).
\<close>

definition validTokenizedBlock :: "Val list \<Rightarrow> TokenizedBlock \<Rightarrow> bool" where
  "validTokenizedBlock b ti =
     (list_all2 (\<lambda>v i. i < length (tokens ti) \<and> tokens ti ! i = v) b (idxs ti) \<and>
      distinct (tokens ti))"

text \<open>
  The upstream contract for one batch (section 6): the bitset slot holds a block of
  Booleans, and all group-by and data blocks have its length. A scalar in a slot stands
  for a block of that length. The stage has at least one group-by slot
  (\<open>invariant(!tokenInfos.empty())\<close>).
\<close>

definition wellFormedBatch :: "Stage \<Rightarrow> (SlotId \<Rightarrow> SlotVal) \<Rightarrow> bool" where
  "wellFormedBatch st env =
     (case env (blockBitsetInSlotId st) of
        Scalar _ \<Rightarrow> False
      | ValueBlock bitmapBlock \<Rightarrow>
          isBoolBlock bitmapBlock \<and> groupSlots st \<noteq> [] \<and>
          (\<forall>b \<in> set (gbBlocksOf st env (length bitmapBlock)) \<union>
                  set (dataBlocksOf st env (length bitmapBlock)).
             length b = length bitmapBlock))"

text \<open>
  \<open>ValueBlock::tokenize\<close> returns a valid encoding of every group-by block of the batch.
\<close>

definition tokenizerValidOn :: "Stage \<Rightarrow> (SlotId \<Rightarrow> SlotVal) \<Rightarrow> bool" where
  "tokenizerValidOn st env =
     (case env (blockBitsetInSlotId st) of
        Scalar _ \<Rightarrow> False
      | ValueBlock bitmapBlock \<Rightarrow>
          (\<forall>gb \<in> set (gbBlocksOf st env (length bitmapBlock)).
             validTokenizedBlock gb (tokenize st gb)))"

text \<open>
  Row \<open>r\<close> of a batch: its group-by key and its accumulator inputs; the rows the
  bitset selects; the selected rows of one key, in row order.
\<close>

definition rowKey :: "Val list list \<Rightarrow> nat \<Rightarrow> MaterializedRow" where
  "rowKey gbBlocks r = map (\<lambda>gb. gb ! r) gbBlocks"

definition rowData :: "Val list list \<Rightarrow> nat \<Rightarrow> Val list" where
  "rowData dataBlocks r = map (\<lambda>d. d ! r) dataBlocks"

definition selectedRows :: "Val list \<Rightarrow> nat list" where
  "selectedRows bitmapBlock = filter (\<lambda>r. bitmapBlock ! r = Boolean True) [0..<length bitmapBlock]"

definition groupRows :: "Val list \<Rightarrow> Val list list \<Rightarrow> MaterializedRow \<Rightarrow> nat list" where
  "groupRows bitmapBlock gbBlocks key = filter (\<lambda>r. rowKey gbBlocks r = key) (selectedRows bitmapBlock)"

text \<open>
  The grouping semantics of one batch, stated row by row as in section 4.2 for the
  row-wise path: the accumulator row of a key is advanced by the row-level expressions
  over the selected rows of that key, in row order; a key without a selected row is
  left alone.
\<close>

definition foldRows :: "Stage \<Rightarrow> Val list list \<Rightarrow> MaterializedRow \<Rightarrow> nat list \<Rightarrow> MaterializedRow" where
  "foldRows st dataBlocks row rs = foldl (\<lambda>acc r. runRowAggs st (rowData dataBlocks r) acc) row rs"

definition groupBySpec ::
  "Stage \<Rightarrow> Val list \<Rightarrow> Val list list \<Rightarrow> Val list list \<Rightarrow> TableType \<Rightarrow> TableType" where
  "groupBySpec st bitmapBlock gbBlocks dataBlocks table =
     (\<lambda>key. case groupRows bitmapBlock gbBlocks key of
               [] \<Rightarrow> table key
             | rs \<Rightarrow> Some (foldRows st dataBlocks (lookupOrInit st table key) rs))"

definition accumulateSpec :: "Stage \<Rightarrow> (SlotId \<Rightarrow> SlotVal) \<Rightarrow> TableType \<Rightarrow> TableType" where
  "accumulateSpec st env table =
     (case env (blockBitsetInSlotId st) of
        Scalar _ \<Rightarrow> table
      | ValueBlock bitmapBlock \<Rightarrow>
          groupBySpec st bitmapBlock (gbBlocksOf st env (length bitmapBlock))
            (dataBlocksOf st env (length bitmapBlock)) table)"

text \<open>
  The bitset bound for the partition of \<open>key\<close> on the tokenized path, and what the
  tokenized path needs from the tokenized keys.
\<close>

definition partitionBitset :: "Val list \<Rightarrow> Val list list \<Rightarrow> MaterializedRow \<Rightarrow> Val list" where
  "partitionBitset bitmapBlock gbBlocks key =
     map (\<lambda>r. Boolean (rowKey gbBlocks r = key \<and> bitmapBlock ! r = Boolean True)) [0..<length bitmapBlock]"

definition tokenizedFor :: "Val list list \<Rightarrow> nat \<Rightarrow> TokenizedKeys \<Rightarrow> bool" where
  "tokenizedFor gbBlocks n tk =
     (length (keyIdxs tk) = n \<and> (\<forall>i \<in> set (keyIdxs tk). i < length (keys tk)) \<and>
      distinct (keys tk) \<and> (\<forall>r < n. keys tk ! (keyIdxs tk ! r) = rowKey gbBlocks r))"

text \<open>
  The accumulator contract of section 6: a block-level expression is the reduction by
  its row-level expression over exactly the rows the bound bitset selects (so it honors
  the bitset), from any previous value. The stage never runs a block-level expression
  on a bitset that selects no row.
\<close>

definition accumulatorsEquivalent :: "Stage \<Rightarrow> bool" where
  "accumulatorsEquivalent st =
     (\<forall>(blockAgg, rowAgg) \<in> set (blockRowAggs st). \<forall>bits dataBlocks prev.
        isBoolBlock bits \<and> selectedRows bits \<noteq> [] \<and> (\<forall>d \<in> set dataBlocks. length d = length bits) \<longrightarrow>
        blockAgg bits dataBlocks prev =
          foldl (\<lambda>acc r. rowAgg (rowData dataBlocks r) acc) prev (selectedRows bits))"

text \<open>
  The keys of the selected rows of a batch, the number of distinct compound keys of a
  batch, and which of the two paths \<open>open\<close> takes for it.
\<close>

definition selectedKeys :: "Stage \<Rightarrow> (SlotId \<Rightarrow> SlotVal) \<Rightarrow> MaterializedRow set" where
  "selectedKeys st env =
     (case env (blockBitsetInSlotId st) of
        Scalar _ \<Rightarrow> {}
      | ValueBlock bitmapBlock \<Rightarrow>
          set (map (rowKey (gbBlocksOf st env (length bitmapBlock))) (selectedRows bitmapBlock)))"

definition batchPartitions :: "Stage \<Rightarrow> (SlotId \<Rightarrow> SlotVal) \<Rightarrow> nat" where
  "batchPartitions st env =
     (case env (blockBitsetInSlotId st) of
        Scalar _ \<Rightarrow> 0
      | ValueBlock bitmapBlock \<Rightarrow>
          numPartitions (length bitmapBlock)
            (map (tokenize st) (gbBlocksOf st env (length bitmapBlock))))"

definition processedTokenized :: "Stage \<Rightarrow> (SlotId \<Rightarrow> SlotVal) \<Rightarrow> TableType \<Rightarrow> bool" where
  "processedTokenized st env table =
     (case env (blockBitsetInSlotId st) of
        Scalar _ \<Rightarrow> False
      | ValueBlock bitmapBlock \<Rightarrow>
          (case tryTokenizeGbs st (gbBlocksOf st env (length bitmapBlock)) (length bitmapBlock) of
             Inr (Some tk) \<Rightarrow>
               accumulateBlock st env table =
                 runAccumulatorsTokenized st tk bitmapBlock
                   (dataBlocksOf st env (length bitmapBlock)) table
           | _ \<Rightarrow> False))"

definition processedElementWise :: "Stage \<Rightarrow> (SlotId \<Rightarrow> SlotVal) \<Rightarrow> TableType \<Rightarrow> bool" where
  "processedElementWise st env table =
     (case env (blockBitsetInSlotId st) of
        Scalar _ \<Rightarrow> False
      | ValueBlock bitmapBlock \<Rightarrow>
          tryTokenizeGbs st (gbBlocksOf st env (length bitmapBlock)) (length bitmapBlock) = Inr None \<and>
          accumulateBlock st env table =
            runAccumulatorsElementWise st bitmapBlock (gbBlocksOf st env (length bitmapBlock))
              (dataBlocksOf st env (length bitmapBlock)) table)"

section \<open>An example stage\<close>

text \<open>
  Modelled from the spec: \<open>ValueBlock::tokenize\<close> is not in this file. Section 3 (token
  set): a sequence of distinct token values plus a per-row index array mapping each
  original row to its token's position. The tokens are taken in first-seen order.
\<close>

definition tokenizeBlock :: "Val list \<Rightarrow> TokenizedBlock" where
  "tokenizeBlock b = \<lparr>tokens = firstSeen b, idxs = map (indexOf (firstSeen b)) b\<rparr>"

text \<open>
  COUNT and SUM (of the first data column) as block-level and row-level expressions,
  and their merging expression.
\<close>

definition numberOf :: "Val \<Rightarrow> int" where
  "numberOf v = (case v of NumberInt64 x \<Rightarrow> x | _ \<Rightarrow> 0)"

definition countRowAgg :: RowAgg where
  "countRowAgg dataVals prev = NumberInt64 (numberOf prev + 1)"

definition countBlockAgg :: BlockAgg where
  "countBlockAgg bits dataBlocks prev = NumberInt64 (numberOf prev + int (length (selectedRows bits)))"

definition sumRowAgg :: RowAgg where
  "sumRowAgg dataVals prev =
     NumberInt64 (numberOf prev + (case dataVals of [] \<Rightarrow> 0 | v # _ \<Rightarrow> numberOf v))"

definition sumBlockAgg :: BlockAgg where
  "sumBlockAgg bits dataBlocks prev =
     NumberInt64 (numberOf prev +
       sum_list (map (\<lambda>r. case dataBlocks of [] \<Rightarrow> 0 | d # _ \<Rightarrow> numberOf (d ! r)) (selectedRows bits)))"

definition addMerge :: MergeExpr where
  "addMerge prev spilled =
     (case prev of Nothing \<Rightarrow> spilled | _ \<Rightarrow> NumberInt64 (numberOf prev + numberOf spilled))"

text \<open>
  A hash table iteration order for the examples: the entries in the order of a fixed
  list of keys.
\<close>

definition iterKeys :: "MaterializedRow list \<Rightarrow> TableType \<Rightarrow> SpillRecord list" where
  "iterKeys ks table = List.map_filter (\<lambda>k. map_option (Pair k) (table k)) ks"

text \<open>
  A stage grouping by slot 1 with COUNT and SUM over slot 2, the bitset in slot 0,
  and batches for it.
\<close>

definition exampleStage :: Stage where
  "exampleStage =
     \<lparr>groupSlots = [1], blockBitsetInSlotId = 0, blockDataInSlotIds = [2],
      blockRowAggs = [(countBlockAgg, countRowAgg), (sumBlockAgg, sumRowAgg)],
      mergingExprs = [addMerge, addMerge],
      forceIncreasedSpilling = False,
      kMaxNumPartitionsForTokenizedPath = 5,
      kBlockOutSize = 2,
      tokenize = tokenizeBlock,
      exceedsMemoryBudget = (\<lambda>table. False),
      htIter = iterKeys [[StringBig ''A''], [StringBig ''B''], [StringBig ''C'']]\<rparr>"

definition batch :: "bool list \<Rightarrow> string list \<Rightarrow> int list \<Rightarrow> SlotId \<Rightarrow> SlotVal" where
  "batch sel gb d =
     (\<lambda>slot. if slot = 0 then ValueBlock (map Boolean sel)
             else if slot = 1 then ValueBlock (map StringBig gb)
             else if slot = 2 then ValueBlock (map NumberInt64 d)
             else Scalar Nothing)"

definition exampleInput :: "(SlotId \<Rightarrow> SlotVal) list" where
  "exampleInput =
     [batch [True, True] [''A'', ''A''] [1, 2],
      batch [True, True] [''B'', ''A''] [3, 4],
      batch [True, True] [''B'', ''B''] [5, 6]]"

text \<open>
  Two batches with the same bitset whose selected rows carry the same group-by and
  accumulator input values; the rows with a false bit may differ in any way.
\<close>

definition agreeOnSelected :: "Stage \<Rightarrow> (SlotId \<Rightarrow> SlotVal) \<Rightarrow> (SlotId \<Rightarrow> SlotVal) \<Rightarrow> bool" where
  "agreeOnSelected st env1 env2 =
     (case env1 (blockBitsetInSlotId st) of
        Scalar _ \<Rightarrow> False
      | ValueBlock bitmapBlock \<Rightarrow>
          env2 (blockBitsetInSlotId st) = ValueBlock bitmapBlock \<and>
          (\<forall>r \<in> set (selectedRows bitmapBlock).
             rowKey (gbBlocksOf st env1 (length bitmapBlock)) r =
               rowKey (gbBlocksOf st env2 (length bitmapBlock)) r \<and>
             rowData (dataBlocksOf st env1 (length bitmapBlock)) r =
               rowData (dataBlocksOf st env2 (length bitmapBlock)) r))"

text \<open>
  On this batch the two paths cannot be told apart: whenever tokenization returns keys,
  \<open>runAccumulatorsTokenized\<close> with them and \<open>runAccumulatorsElementWise\<close> give the same
  outcome from every table.
\<close>

definition pathsAgree :: "Stage \<Rightarrow> (SlotId \<Rightarrow> SlotVal) \<Rightarrow> bool" where
  "pathsAgree st env =
     (case env (blockBitsetInSlotId st) of
        Scalar _ \<Rightarrow> True
      | ValueBlock bitmapBlock \<Rightarrow>
          (\<forall>tokenizedKeys table.
             tryTokenizeGbs st (gbBlocksOf st env (length bitmapBlock)) (length bitmapBlock) =
               Inr (Some tokenizedKeys) \<longrightarrow>
             runAccumulatorsTokenized st tokenizedKeys bitmapBlock
               (dataBlocksOf st env (length bitmapBlock)) table =
             runAccumulatorsElementWise st bitmapBlock (gbBlocksOf st env (length bitmapBlock))
               (dataBlocksOf st env (length bitmapBlock)) table))"

text \<open>
  The records the spill-merge reader has not consumed yet: the stashed record, if any,
  followed by what the cursor still returns.
\<close>

definition pendingRecords :: "State \<Rightarrow> SpillRecord list" where
  "pendingRecords s =
     (case stashedNextRow s of None \<Rightarrow> [] | Some stashed \<Rightarrow> [stashed]) @ rsCursor s"

text \<open>
  Merging one partial accumulator row into the running row with the merging
  expressions, and the merge of a list of partial rows, starting from \<open>Nothing\<close>.
\<close>

definition mergeStep :: "Stage \<Rightarrow> Val list \<Rightarrow> MaterializedRow \<Rightarrow> Val list" where
  "mergeStep st rs spilledAggRow =
     map (\<lambda>idx. (mergingExprs st ! idx) (rs ! idx) (spilledAggRow ! idx))
       [0..<length (blockRowAggs st)]"

definition mergePartials :: "Stage \<Rightarrow> MaterializedRow list \<Rightarrow> Val list" where
  "mergePartials st rows =
     foldl (mergeStep st) (replicate (length (blockRowAggs st)) Nothing) rows"

text \<open>
  The lists of merging expressions and of accumulators have the same size (tassert
  8780601 of the constructor when disk use is allowed), and every record carries one
  value per accumulator.
\<close>

definition recordsWellSized :: "Stage \<Rightarrow> SpillRecord list \<Rightarrow> bool" where
  "recordsWellSized st recs =
     (length (mergingExprs st) = length (blockRowAggs st) \<and>
      (\<forall>r \<in> set recs. length (snd r) = length (blockRowAggs st)))"

text \<open>
  A spill log with three consecutive records for key K followed by two for key L
  (the scenario of section 8), and a state whose cursor is at its beginning.
\<close>

definition exampleLog :: "SpillRecord list" where
  "exampleLog =
     [([StringBig ''K''], [NumberInt64 1, NumberInt64 10]),
      ([StringBig ''K''], [NumberInt64 2, NumberInt64 20]),
      ([StringBig ''K''], [NumberInt64 3, NumberInt64 30]),
      ([StringBig ''L''], [NumberInt64 1, NumberInt64 5]),
      ([StringBig ''L''], [NumberInt64 1, NumberInt64 6])]"

definition spilledState :: State where
  "spilledState = initialState\<lparr>recordStore := Some exampleLog, rsCursor := exampleLog\<rparr>"

text \<open>A state after \<open>open\<close> without a spill, with three groups in the table.\<close>

definition tableState :: State where
  "tableState =
     initialState\<lparr>ht := [[StringBig ''A''] \<mapsto> [NumberInt64 1, NumberInt64 10],
                          [StringBig ''B''] \<mapsto> [NumberInt64 2, NumberInt64 20],
                          [StringBig ''C''] \<mapsto> [NumberInt64 3, NumberInt64 30]]\<rparr>"

text \<open>
  What one batch does to the accumulator row of a key with a selected row, on the
  path the batch takes: the block-level expressions on the partition's bitset, or the
  row-level expressions over the key's selected rows.
\<close>

definition blockUpdate ::
  "Stage \<Rightarrow> (SlotId \<Rightarrow> SlotVal) \<Rightarrow> MaterializedRow \<Rightarrow> MaterializedRow \<Rightarrow> MaterializedRow" where
  "blockUpdate st env key row =
     (case env (blockBitsetInSlotId st) of
        Scalar _ \<Rightarrow> row
      | ValueBlock bitmapBlock \<Rightarrow>
          if batchPartitions st env \<le> kMaxNumPartitionsForTokenizedPath st
          then runBlockAggs st
                 (partitionBitset bitmapBlock (gbBlocksOf st env (length bitmapBlock)) key)
                 (dataBlocksOf st env (length bitmapBlock)) row
          else foldRows st (dataBlocksOf st env (length bitmapBlock)) row
                 (groupRows bitmapBlock (gbBlocksOf st env (length bitmapBlock)) key))"

definition updateTable :: "Stage \<Rightarrow> (SlotId \<Rightarrow> SlotVal) \<Rightarrow> TableType \<Rightarrow> TableType" where
  "updateTable st env table =
     (\<lambda>key. if key \<in> selectedKeys st env
            then Some (blockUpdate st env key (lookupOrInit st table key))
            else table key)"



text \<open>
  The table after a list of batches when nothing is spilled, and the record store after
  them when the table is spilled after every batch that leaves it non-empty.
\<close>

definition accumulateAll :: "Stage \<Rightarrow> (SlotId \<Rightarrow> SlotVal) list \<Rightarrow> TableType \<Rightarrow> TableType" where
  "accumulateAll st envs table = foldl (\<lambda>t env. updateTable st env t) table envs"


definition logOf :: "SpillRecord list option \<Rightarrow> SpillRecord list" where
  "logOf rs = (case rs of None \<Rightarrow> [] | Some recs \<Rightarrow> recs)"


text \<open>
  The iteration of the hash table visits every entry of a table exactly once, for the
  tables whose keys are among \<open>K\<close>.
\<close>

definition htIterEnumerates :: "Stage \<Rightarrow> MaterializedRow set \<Rightarrow> bool" where
  "htIterEnumerates st K =
     (\<forall>table. dom table \<subseteq> K \<longrightarrow>
        set (htIter st table) = {(k, v). table k = Some v} \<and>
        distinct (map fst (htIter st table)))"

definition streamKeys :: "Stage \<Rightarrow> (SlotId \<Rightarrow> SlotVal) list \<Rightarrow> MaterializedRow set" where
  "streamKeys st envs = (\<Union>env \<in> set envs. selectedKeys st env)"







text \<open>The stage with the same plan that never spills.\<close>

definition neverSpilling :: "Stage \<Rightarrow> Stage" where
  "neverSpilling st = st\<lparr>forceIncreasedSpilling := False, exceedsMemoryBudget := (\<lambda>table. False)\<rparr>"


text \<open>
  A ghost counter over the \<open>while\<close> loop of \<open>open\<close>: the number of spills the loop
  performs, by \<open>spill\<close> under \<open>_forceIncreasedSpilling\<close> or by
  \<open>checkMemoryUsageAndSpillIfNecessary\<close> when the budget is exceeded.
\<close>

fun spillsDuring :: "Stage \<Rightarrow> (SlotId \<Rightarrow> SlotVal) list \<Rightarrow> State \<Rightarrow> nat" where
  "spillsDuring st [] s = 0"
| "spillsDuring st (env # envs) s =
     (case accumulateBlock st env (ht s) of
        Inl e \<Rightarrow> 0
      | Inr table \<Rightarrow>
          if table \<noteq> Map.empty then
            (if forceIncreasedSpilling st then Suc (spillsDuring st envs (spill st (s\<lparr>ht := table\<rparr>)))
             else if exceedsMemoryBudget st table
                  then Suc (spillsDuring st envs (spill st (s\<lparr>ht := table\<rparr>)))
                  else spillsDuring st envs (s\<lparr>ht := table\<rparr>))
          else spillsDuring st envs (s\<lparr>ht := table\<rparr>))"

text \<open>
  What the final spill of \<open>open\<close> appends to the log: the entries the table still
  holds when the input is exhausted.
\<close>

definition leftoverRecords :: "Stage \<Rightarrow> State \<Rightarrow> SpillRecord list" where
  "leftoverRecords st s = (if ht s = Map.empty then [] else htIter st (ht s))"

text \<open>
  The block-level expressions honor the bound selection mask: what they return does not
  depend on the values their input blocks hold at rows whose bit is false.
\<close>

definition blockAggsHonorMask :: "Stage \<Rightarrow> bool" where
  "blockAggsHonorMask st =
     (\<forall>(blockAgg, rowAgg) \<in> set (blockRowAggs st). \<forall>bits dataBlocks1 dataBlocks2 prev.
        (\<forall>r \<in> set (selectedRows bits). rowData dataBlocks1 r = rowData dataBlocks2 r) \<longrightarrow>
        blockAgg bits dataBlocks1 prev = blockAgg bits dataBlocks2 prev)"

text \<open>
  A stage whose only accumulator has COUNT as its block-level expression and SUM as its
  row-level expression: the block-level expression honors the mask, but it is not the
  reduction of the row-level one.
\<close>

definition countSumStage :: Stage where
  "countSumStage =
     exampleStage\<lparr>blockRowAggs := [(countBlockAgg, sumRowAgg)], mergingExprs := [addMerge]\<rparr>"



lemma mapE_Inr: "(\<And>x. x \<in> set xs \<Longrightarrow> f x = Inr (g x)) \<Longrightarrow> mapE f xs = Inr (map g xs)"
  by (induction xs) auto

lemma set_firstSeenFrom: "set (firstSeenFrom seen xs) = set seen \<union> set xs"
  by (induction xs arbitrary: seen) auto

lemma distinct_firstSeenFrom: "distinct seen \<Longrightarrow> distinct (firstSeenFrom seen xs)"
  by (induction xs arbitrary: seen) auto

lemma firstSeenFrom_prefix: "\<exists>ys. firstSeenFrom seen xs = seen @ ys"
proof (induction xs arbitrary: seen)
  case Nil
  then show ?case by simp
next
  case (Cons x xs)
  obtain ys where "firstSeenFrom (if x \<in> set seen then seen else seen @ [x]) xs
      = (if x \<in> set seen then seen else seen @ [x]) @ ys"
    using Cons.IH by blast
  then show ?case by (cases "x \<in> set seen") auto
qed

lemma length_firstSeenFrom_ge: "length seen \<le> length (firstSeenFrom seen xs)"
  using firstSeenFrom_prefix [of seen xs] by auto

lemma length_firstSeenFrom: "distinct seen \<Longrightarrow> length (firstSeenFrom seen xs) = card (set seen \<union> set xs)"
  using distinct_card [OF distinct_firstSeenFrom, of seen xs] by (simp add: set_firstSeenFrom)

lemma indexOf_append: "x \<in> set xs \<Longrightarrow> indexOf (xs @ ys) x = indexOf xs x"
  unfolding indexOf_def by (induction xs) auto

lemma indexOf_fresh: "x \<notin> set xs \<Longrightarrow> indexOf (xs @ x # ys) x = length xs"
  unfolding indexOf_def by (induction xs) auto

lemma indexOf_less: "x \<in> set xs \<Longrightarrow> indexOf xs x < length xs"
  unfolding indexOf_def by (induction xs) auto

lemma nth_indexOf: "x \<in> set xs \<Longrightarrow> xs ! indexOf xs x = x"
  unfolding indexOf_def by (induction xs) auto

lemma indexOf_nth: "distinct xs \<Longrightarrow> i < length xs \<Longrightarrow> indexOf xs (xs ! i) = i"
  unfolding indexOf_def
proof (induction xs arbitrary: i)
  case Nil
  then show ?case by simp
next
  case (Cons a xs)
  then show ?case by (cases i) auto
qed

lemma seenMap_snoc: "ck \<notin> set seen \<Longrightarrow> (seenMap seen)(ck \<mapsto> length seen) = seenMap (seen @ [ck])"
  by (auto simp: seenMap_def fun_eq_iff indexOf_append indexOf_fresh)

lemma indexOf_firstSeenFrom: "x \<in> set seen \<Longrightarrow> indexOf (firstSeenFrom seen xs) x = indexOf seen x"
  using firstSeenFrom_prefix [of seen xs] by (auto simp: indexOf_append)

lemma tokenizeRows_char:
  assumes "distinct seen"
    and "\<And>ck. ck \<in> set rest \<Longrightarrow> materializeKey dts ck = Inr (mat ck)"
  shows "tokenizeRows kMax dts rest (seenMap seen) (length seen) (map mat seen) ix =
         (if length (firstSeenFrom seen rest) \<le> kMax \<or> length (firstSeenFrom seen rest) = length seen
          then Inr (Some \<lparr>keys = map mat (firstSeenFrom seen rest),
                           keyIdxs = ix @ map (indexOf (firstSeenFrom seen rest)) rest\<rparr>)
          else Inr None)"
  using assms
proof (induction rest arbitrary: seen ix)
  case Nil
  then show ?case by simp
next
  case (Cons ck rest)
  show ?case
  proof (cases "ck \<in> set seen")
    case True
    have "tokenizeRows kMax dts (ck # rest) (seenMap seen) (length seen) (map mat seen) ix =
          tokenizeRows kMax dts rest (seenMap seen) (length seen) (map mat seen) (ix @ [indexOf seen ck])"
      using True by (simp add: seenMap_def)
    also have "\<dots> = (if length (firstSeenFrom seen rest) \<le> kMax \<or> length (firstSeenFrom seen rest) = length seen
          then Inr (Some \<lparr>keys = map mat (firstSeenFrom seen rest),
                           keyIdxs = (ix @ [indexOf seen ck]) @ map (indexOf (firstSeenFrom seen rest)) rest\<rparr>)
          else Inr None)"
      using Cons.IH [OF Cons.prems(1)] Cons.prems(2) by simp
    finally show ?thesis using True by (simp add: indexOf_firstSeenFrom)
  next
    case False
    let ?seen' = "seen @ [ck]"
    have d: "distinct ?seen'" using False Cons.prems(1) by simp
    have len: "length ?seen' \<le> length (firstSeenFrom ?seen' rest)"
      by (rule length_firstSeenFrom_ge)
    show ?thesis
    proof (cases "length seen + 1 > kMax")
      case True
      then show ?thesis using False len by (simp add: seenMap_def)
    next
      case le: False
      have m: "materializeKey dts ck = Inr (mat ck)" using Cons.prems(2) by simp
      have "tokenizeRows kMax dts (ck # rest) (seenMap seen) (length seen) (map mat seen) ix =
          tokenizeRows kMax dts rest (seenMap ?seen') (length ?seen') (map mat ?seen') (ix @ [length seen])"
        using False le m by (simp add: seenMap_def [of seen] seenMap_snoc [symmetric])
      also have "\<dots> = (if length (firstSeenFrom ?seen' rest) \<le> kMax \<or> length (firstSeenFrom ?seen' rest) = length ?seen'
          then Inr (Some \<lparr>keys = map mat (firstSeenFrom ?seen' rest),
                           keyIdxs = (ix @ [length seen]) @ map (indexOf (firstSeenFrom ?seen' rest)) rest\<rparr>)
          else Inr None)"
        using Cons.IH [OF d] Cons.prems(2) by simp
      finally show ?thesis using False le len
        by (auto simp: indexOf_firstSeenFrom [of ck ?seen' rest] indexOf_fresh [of ck seen "[]", simplified])
    qed
  qed
qed

lemma compoundKeys_Inr:
  assumes "tokenInfosInRange n tis"
  shows "compoundKeys tis = Inr (compoundKeyRows n tis)"
proof -
  have hd: "length (idxs (hd tis)) = n"
    using assms by (cases tis) (auto simp: tokenInfosInRange_def)
  have "\<And>r. r \<in> set [0..<n] \<Longrightarrow> mapE (\<lambda>ti. readAt (idxs ti) r) tis = Inr (map (\<lambda>ti. idxs ti ! r) tis)"
    using assms by (intro mapE_Inr) (auto simp: tokenInfosInRange_def readAt_def)
  then show ?thesis
    unfolding compoundKeys_def compoundKeyRows_def hd by (rule mapE_Inr)
qed

lemma materializeKey_Inr:
  assumes "tokenInfosInRange n tis" and "ck \<in> set (compoundKeyRows n tis)"
  shows "materializeKey (map tokens tis) ck = Inr (tokenRow tis ck)"
proof -
  obtain r where r: "r < n" and ck: "ck = map (\<lambda>ti. idxs ti ! r) tis"
    using assms(2) by (auto simp: compoundKeyRows_def)
  have len: "length ck = length tis" by (simp add: ck)
  have "\<And>c. c \<in> set [0..<length ck] \<Longrightarrow>
        (case readAt (map tokens tis) c of Inl e \<Rightarrow> Inl e | Inr toks \<Rightarrow> readAt toks (ck ! c))
        = Inr (tokens (tis ! c) ! (ck ! c))"
  proof -
    fix c assume "c \<in> set [0..<length ck]"
    then have c: "c < length tis" by (simp add: len)
    then have "tis ! c \<in> set tis" by simp
    then have "length (idxs (tis ! c)) = n" and "\<forall>i \<in> set (idxs (tis ! c)). i < length (tokens (tis ! c))"
      using assms(1) by (auto simp: tokenInfosInRange_def)
    then have "idxs (tis ! c) ! r < length (tokens (tis ! c))" using r by auto
    then show "(case readAt (map tokens tis) c of Inl e \<Rightarrow> Inl e | Inr toks \<Rightarrow> readAt toks (ck ! c))
        = Inr (tokens (tis ! c) ! (ck ! c))"
      using c by (simp add: readAt_def ck)
  qed
  then have "materializeKey (map tokens tis) ck = Inr (map (\<lambda>c. tokens (tis ! c) ! (ck ! c)) [0..<length ck])"
    unfolding materializeKey_def by (rule mapE_Inr)
  then show ?thesis by (simp add: tokenRow_def len)
qed

lemma length_firstSeen: "length (firstSeen xs) = length (remdups xs)"
  by (simp add: firstSeen_def length_firstSeenFrom length_remdups_card_conv)

lemma tokenizeTokenInfos_char:
  assumes "tokenInfosInRange n tis"
  shows "tokenizeTokenInfos kMax tis (map tokens tis) =
         (if numPartitions n tis \<le> kMax
          then Inr (Some \<lparr>keys = map (tokenRow tis) (firstSeen (compoundKeyRows n tis)),
                           keyIdxs = map (indexOf (firstSeen (compoundKeyRows n tis))) (compoundKeyRows n tis)\<rparr>)
          else Inr None)"
proof -
  have ne: "tis \<noteq> []" using assms by (simp add: tokenInfosInRange_def)
  have e: "seenMap [] = (Map.empty :: nat list \<rightharpoonup> nat)" by (simp add: seenMap_def)
  have "tokenizeRows kMax (map tokens tis) (compoundKeyRows n tis) (seenMap []) (length ([] :: nat list list))
          (map (tokenRow tis) []) [] =
        (if length (firstSeenFrom [] (compoundKeyRows n tis)) \<le> kMax \<or> length (firstSeenFrom [] (compoundKeyRows n tis)) = length ([] :: nat list list)
          then Inr (Some \<lparr>keys = map (tokenRow tis) (firstSeenFrom [] (compoundKeyRows n tis)),
                           keyIdxs = [] @ map (indexOf (firstSeenFrom [] (compoundKeyRows n tis))) (compoundKeyRows n tis)\<rparr>)
          else Inr None)"
    by (rule tokenizeRows_char) (auto intro: materializeKey_Inr [OF assms])
  then show ?thesis
    using ne compoundKeys_Inr [OF assms] length_firstSeen [of "compoundKeyRows n tis"]
    by (auto simp: tokenizeTokenInfos_def e firstSeen_def numPartitions_def)
qed

lemma tokenizeGbs_Inr:
  "(\<And>gb. gb \<in> set gbs \<Longrightarrow> length (idxs (tok gb)) = n) \<Longrightarrow> tokenizeGbs tok n gbs = Inr (map tok gbs)"
  by (induction gbs) auto

lemma validTokenizedBlock_length: "validTokenizedBlock b ti \<Longrightarrow> length (idxs ti) = length b"
  by (auto simp: validTokenizedBlock_def dest: list_all2_lengthD)

lemma validTokenizedBlock_nth:
  "validTokenizedBlock b ti \<Longrightarrow> r < length b \<Longrightarrow> idxs ti ! r < length (tokens ti) \<and> tokens ti ! (idxs ti ! r) = b ! r"
  by (auto simp: validTokenizedBlock_def list_all2_conv_all_nth)

lemma validTokenizedBlock_range:
  "validTokenizedBlock b ti \<Longrightarrow> i \<in> set (idxs ti) \<Longrightarrow> i < length (tokens ti)"
  by (auto simp: validTokenizedBlock_def list_all2_conv_all_nth in_set_conv_nth)

lemma tokenInfosInRange_valid:
  assumes "gbs \<noteq> []" and "\<forall>gb \<in> set gbs. validTokenizedBlock gb (tok gb) \<and> length gb = n"
  shows "tokenInfosInRange n (map tok gbs)"
proof -
  have 1: "length (idxs (tok gb)) = n" if "gb \<in> set gbs" for gb
  proof -
    have "validTokenizedBlock gb (tok gb)" "length gb = n" using that assms(2) by auto
    then show ?thesis by (simp add: validTokenizedBlock_length)
  qed
  have 2: "i < length (tokens (tok gb))" if "gb \<in> set gbs" "i \<in> set (idxs (tok gb))" for gb i
  proof -
    have "validTokenizedBlock gb (tok gb)" using that assms(2) by auto
    then show ?thesis using that(2) by (rule validTokenizedBlock_range)
  qed
  show ?thesis using assms(1) 1 2 by (auto simp: tokenInfosInRange_def)
qed

lemma tryTokenizeGbs_valid:
  assumes "\<forall>gb \<in> set gbs. validTokenizedBlock gb (tokenize st gb) \<and> length gb = n"
  shows "tryTokenizeGbs st gbs n =
         tokenizeTokenInfos (kMaxNumPartitionsForTokenizedPath st) (map (tokenize st) gbs)
           (map tokens (map (tokenize st) gbs))"
proof -
  have "tokenizeGbs (tokenize st) n gbs = Inr (map (tokenize st) gbs)"
  proof (rule tokenizeGbs_Inr)
    fix gb assume "gb \<in> set gbs"
    then have "validTokenizedBlock gb (tokenize st gb)" "length gb = n" using assms by auto
    then show "length (idxs (tokenize st gb)) = n" by (simp add: validTokenizedBlock_length)
  qed
  then show ?thesis by (simp add: tryTokenizeGbs_def)
qed

lemma tokenRow_inj:
  assumes r: "tokenInfosInRange n tis" and d: "\<forall>ti \<in> set tis. distinct (tokens ti)"
    and a: "a \<in> set (compoundKeyRows n tis)" and b: "b \<in> set (compoundKeyRows n tis)"
    and eq: "tokenRow tis a = tokenRow tis b"
  shows "a = b"
proof (rule nth_equalityI)
  obtain ra where ra: "ra < n" "a = map (\<lambda>ti. idxs ti ! ra) tis"
    using a by (auto simp: compoundKeyRows_def)
  obtain rb where rb: "rb < n" "b = map (\<lambda>ti. idxs ti ! rb) tis"
    using b by (auto simp: compoundKeyRows_def)
  show "length a = length b" by (simp add: ra rb)
  fix c assume "c < length a"
  then have c: "c < length tis" by (simp add: ra)
  then have mem: "tis ! c \<in> set tis" by simp
  have len: "length (idxs (tis ! c)) = n" and rng: "\<forall>i \<in> set (idxs (tis ! c)). i < length (tokens (tis ! c))"
    using r mem by (auto simp: tokenInfosInRange_def)
  have la: "a ! c < length (tokens (tis ! c))" and lb: "b ! c < length (tokens (tis ! c))"
    using c ra rb len rng by auto
  have "tokenRow tis a ! c = tokenRow tis b ! c" using eq by simp
  then have "tokens (tis ! c) ! (a ! c) = tokens (tis ! c) ! (b ! c)"
    using c by (simp add: tokenRow_def)
  moreover have "distinct (tokens (tis ! c))" using d mem by blast
  ultimately show "a ! c = b ! c"
    using la lb by (simp add: nth_eq_iff_index_eq)
qed

lemma set_firstSeen: "set (firstSeen xs) = set xs"
  by (simp add: firstSeen_def set_firstSeenFrom)

lemma distinct_firstSeen: "distinct (firstSeen xs)"
  by (simp add: firstSeen_def distinct_firstSeenFrom)

lemma tokenizeTokenInfos_Some:
  assumes r: "tokenInfosInRange n tokenInfos"
    and d: "\<forall>ti \<in> set tokenInfos. distinct (tokens ti)"
    and res: "tokenizeTokenInfos kMax tokenInfos (map tokens tokenInfos) = Inr (Some tokenizedKeys)"
  shows "length (keyIdxs tokenizedKeys) = n \<and>
         (\<forall>i \<in> set (keyIdxs tokenizedKeys). i < length (keys tokenizedKeys)) \<and>
         distinct (keys tokenizedKeys) \<and>
         length (keys tokenizedKeys) \<le> kMax \<and>
         keys tokenizedKeys = map (tokenRow tokenInfos) (firstSeen (compoundKeyRows n tokenInfos)) \<and>
         keyIdxs tokenizedKeys =
           map (indexOf (firstSeen (compoundKeyRows n tokenInfos))) (compoundKeyRows n tokenInfos)"
proof -
  let ?cks = "compoundKeyRows n tokenInfos"
  have le: "numPartitions n tokenInfos \<le> kMax"
    using res tokenizeTokenInfos_char [OF r, of kMax] by (auto split: if_splits)
  then have tk: "tokenizedKeys = \<lparr>keys = map (tokenRow tokenInfos) (firstSeen ?cks),
                           keyIdxs = map (indexOf (firstSeen ?cks)) ?cks\<rparr>"
    using res tokenizeTokenInfos_char [OF r, of kMax] by simp
  have 1: "length (keyIdxs tokenizedKeys) = n" by (simp add: tk compoundKeyRows_def)
  have 2: "\<forall>i \<in> set (keyIdxs tokenizedKeys). i < length (keys tokenizedKeys)"
    using indexOf_less [of _ "firstSeen ?cks"] by (auto simp: tk set_firstSeen)
  have "inj_on (tokenRow tokenInfos) (set (firstSeen ?cks))"
    unfolding set_firstSeen by (rule inj_onI) (rule tokenRow_inj [OF r d])
  then have 3: "distinct (keys tokenizedKeys)"
    by (simp add: tk distinct_map distinct_firstSeen)
  have 4: "length (keys tokenizedKeys) \<le> kMax"
    using le by (simp add: tk length_firstSeen numPartitions_def)
  have 5: "keys tokenizedKeys = map (tokenRow tokenInfos) (firstSeen ?cks)" by (simp add: tk)
  have 6: "keyIdxs tokenizedKeys = map (indexOf (firstSeen ?cks)) ?cks" by (simp add: tk)
  show ?thesis using 1 2 3 4 5 6 by blast
qed

lemma isBoolBlock_nth: "isBoolBlock b \<Longrightarrow> r < length b \<Longrightarrow> \<exists>x. b ! r = Boolean x"
proof -
  assume "isBoolBlock b" "r < length b"
  then have "case b ! r of Boolean _ \<Rightarrow> True | _ \<Rightarrow> False"
    by (simp add: isBoolBlock_def list_all_length)
  then show ?thesis by (cases "b ! r") auto
qed

lemma rowLoop_char:
  assumes bm: "isBoolBlock bm"
    and len: "\<forall>b \<in> set gbs \<union> set data. length b = length bm"
    and rng: "\<forall>r \<in> set is. r < length bm"
  shows "executeRowLevelAccumulatorCode st bm gbs data is table =
         Inr (\<lambda>key. case filter (\<lambda>r. bm ! r = Boolean True \<and> rowKey gbs r = key) is of
                       [] \<Rightarrow> table key
                     | rs \<Rightarrow> Some (foldRows st data (lookupOrInit st table key) rs))"
  using rng
proof (induction "is" arbitrary: table)
  case Nil
  then show ?case by simp
next
  case (Cons r rest)
  have r: "r < length bm" using Cons.prems by simp
  obtain x where x: "bm ! r = Boolean x" using isBoolBlock_nth [OF bm r] by blast
  have IH: "\<And>table. executeRowLevelAccumulatorCode st bm gbs data rest table =
         Inr (\<lambda>key. case filter (\<lambda>r. bm ! r = Boolean True \<and> rowKey gbs r = key) rest of
                       [] \<Rightarrow> table key
                     | rs \<Rightarrow> Some (foldRows st data (lookupOrInit st table key) rs))"
    using Cons.IH Cons.prems by simp
  show ?case
  proof (cases x)
    case False
    then show ?thesis using r x IH by (simp add: readAt_def)
  next
    case True
    have k: "mapE (\<lambda>gb. readAt gb r) gbs = Inr (rowKey gbs r)"
      unfolding rowKey_def using len r by (intro mapE_Inr) (auto simp: readAt_def)
    have d: "mapE (\<lambda>d. readAt d r) data = Inr (rowData data r)"
      unfolding rowData_def using len r by (intro mapE_Inr) (auto simp: readAt_def)
    let ?table' = "table(rowKey gbs r \<mapsto> runRowAggs st (rowData data r) (lookupOrInit st table (rowKey gbs r)))"
    have "executeRowLevelAccumulatorCode st bm gbs data (r # rest) table =
          executeRowLevelAccumulatorCode st bm gbs data rest ?table'"
      using r x True k d by (simp add: readAt_def)
    also have "\<dots> = Inr (\<lambda>key. case filter (\<lambda>r. bm ! r = Boolean True \<and> rowKey gbs r = key) rest of
                       [] \<Rightarrow> ?table' key
                     | rs \<Rightarrow> Some (foldRows st data (lookupOrInit st ?table' key) rs))"
      by (rule IH)
    also have "\<dots> = Inr (\<lambda>key. case filter (\<lambda>r. bm ! r = Boolean True \<and> rowKey gbs r = key) (r # rest) of
                       [] \<Rightarrow> table key
                     | rs \<Rightarrow> Some (foldRows st data (lookupOrInit st table key) rs))"
    proof -
      have "(case filter (\<lambda>r. bm ! r = Boolean True \<and> rowKey gbs r = key) rest of
                       [] \<Rightarrow> ?table' key
                     | rs \<Rightarrow> Some (foldRows st data (lookupOrInit st ?table' key) rs))
          = (case filter (\<lambda>r. bm ! r = Boolean True \<and> rowKey gbs r = key) (r # rest) of
                       [] \<Rightarrow> table key
                     | rs \<Rightarrow> Some (foldRows st data (lookupOrInit st table key) rs))" for key
        using x True
        by (cases "rowKey gbs r = key")
           (auto simp: lookupOrInit_def foldRows_def split: list.splits)
      then show ?thesis by simp
    qed
    finally show ?thesis .
  qed
qed

lemma runAccumulatorsElementWise_spec:
  assumes "isBoolBlock bm" and "\<forall>b \<in> set gbs \<union> set data. length b = length bm"
  shows "runAccumulatorsElementWise st bm gbs data table = Inr (groupBySpec st bm gbs data table)"
proof -
  have "filter (\<lambda>r. bm ! r = Boolean True \<and> rowKey gbs r = key) [0..<length bm] = groupRows bm gbs key" for key
    by (simp add: groupRows_def selectedRows_def conj_commute)
  then show ?thesis
    unfolding runAccumulatorsElementWise_def groupBySpec_def
    using rowLoop_char [OF assms, of "[0..<length bm]" st table] by simp
qed

lemma allFalse_map: "allFalse (map (\<lambda>r. Boolean (Q r)) rs) = Inr (\<forall>r \<in> set rs. \<not> Q r)"
  by (induction rs) auto

lemma bitAndLoop_char:
  "length ps = length bm \<Longrightarrow> isBoolBlock bm \<Longrightarrow>
   bitAndLoop (map (\<lambda>q. Boolean (P q)) ps) bm =
   Inr (map (\<lambda>(q, v). Boolean (P q \<and> v = Boolean True)) (zip ps bm))"
proof (induction ps bm rule: list_induct2)
  case Nil
  then show ?case by simp
next
  case (Cons q ps v bm)
  then obtain x where "v = Boolean x" by (cases v) (auto simp: isBoolBlock_def)
  then show ?case using Cons by (auto simp: isBoolBlock_def)
qed

lemma partition_bitset:
  assumes tk: "tokenizedFor gbs (length bm) tk" and bm: "isBoolBlock bm" and p: "p < length (keys tk)"
  shows "(if length (keys tk) > 1
          then bitAnd (computeBitmapForPartition (keyIdxs tk) p) bm
          else Inr bm) = Inr (partitionBitset bm gbs (keys tk ! p))"
proof -
  have len: "length (keyIdxs tk) = length bm" using tk by (simp add: tokenizedFor_def)
  have idx: "\<And>r. r < length bm \<Longrightarrow> keyIdxs tk ! r < length (keys tk)"
    using tk len by (simp add: tokenizedFor_def)
  have key: "\<And>r. r < length bm \<Longrightarrow> keys tk ! (keyIdxs tk ! r) = rowKey gbs r"
    using tk by (simp add: tokenizedFor_def)
  have d: "distinct (keys tk)" using tk by (simp add: tokenizedFor_def)
  have same: "(keyIdxs tk ! r = p) = (rowKey gbs r = keys tk ! p)" if "r < length bm" for r
    using key [OF that] idx [OF that] p d by (metis nth_eq_iff_index_eq)
  show ?thesis
  proof (cases "length (keys tk) > 1")
    case True
    have "bitAnd (computeBitmapForPartition (keyIdxs tk) p) bm =
          Inr (map (\<lambda>(q, v). Boolean (q = p \<and> v = Boolean True)) (zip (keyIdxs tk) bm))"
      using bitAndLoop_char [OF len bm, of "\<lambda>q. q = p"]
      by (simp add: bitAnd_def computeBitmapForPartition_def len)
    also have "map (\<lambda>(q, v). Boolean (q = p \<and> v = Boolean True)) (zip (keyIdxs tk) bm)
        = partitionBitset bm gbs (keys tk ! p)"
      by (rule nth_equalityI) (auto simp: partitionBitset_def len same)
    finally show ?thesis using True by simp
  next
    case False
    then have one: "length (keys tk) = 1" using p by simp
    then have p0: "p = 0" using p by simp
    have "bm = partitionBitset bm gbs (keys tk ! p)"
    proof (rule nth_equalityI)
      show "length bm = length (partitionBitset bm gbs (keys tk ! p))"
        by (simp add: partitionBitset_def)
      fix r assume r: "r < length bm"
      obtain x where x: "bm ! r = Boolean x" using isBoolBlock_nth [OF bm r] by blast
      have "keyIdxs tk ! r = p" using idx [OF r] one p0 by simp
      then have "rowKey gbs r = keys tk ! p" using same [OF r] by simp
      then show "bm ! r = partitionBitset bm gbs (keys tk ! p) ! r"
        using r x by (simp add: partitionBitset_def)
    qed
    then show ?thesis using False by simp
  qed
qed

lemma allFalse_partitionBitset:
  "allFalse (partitionBitset bm gbs key) = Inr (groupRows bm gbs key = [])"
  by (auto simp: partitionBitset_def allFalse_map groupRows_def selectedRows_def filter_empty_conv)

lemma runPartitions_char:
  assumes tk: "tokenizedFor gbs (length bm) tk" and bm: "isBoolBlock bm"
    and ps: "distinct ps" "\<forall>p \<in> set ps. p < length (keys tk)"
  shows "runPartitions st tk bm data ps table =
         Inr (\<lambda>key. if key \<in> (\<lambda>p. keys tk ! p) ` set ps \<and> groupRows bm gbs key \<noteq> []
                     then Some (runBlockAggs st (partitionBitset bm gbs key) data (lookupOrInit st table key))
                     else table key)"
  using ps
proof (induction ps arbitrary: table)
  case Nil
  then show ?case by simp
next
  case (Cons p rest)
  have p: "p < length (keys tk)" using Cons.prems by simp
  have d: "distinct (keys tk)" using tk by (simp add: tokenizedFor_def)
  let ?k = "keys tk ! p"
  have notin: "?k \<notin> (\<lambda>p. keys tk ! p) ` set rest"
  proof
    assume "?k \<in> (\<lambda>p. keys tk ! p) ` set rest"
    then obtain q where q: "q \<in> set rest" "keys tk ! q = ?k" by auto
    then have "q < length (keys tk)" using Cons.prems by simp
    then have "q = p" using q(2) p d by (simp add: nth_eq_iff_index_eq)
    then show False using q(1) Cons.prems by simp
  qed
  let ?table' = "if groupRows bm gbs ?k = [] then table
                 else table(?k \<mapsto> runBlockAggs st (partitionBitset bm gbs ?k) data (lookupOrInit st table ?k))"
  have step: "runPartitions st tk bm data (p # rest) table = runPartitions st tk bm data rest ?table'"
    using partition_bitset [OF tk bm p] p
    by (simp add: readAt_def executeBlockLevelAccumulatorCode_def allFalse_partitionBitset)
  have IH: "runPartitions st tk bm data rest ?table' =
         Inr (\<lambda>key. if key \<in> (\<lambda>p. keys tk ! p) ` set rest \<and> groupRows bm gbs key \<noteq> []
                     then Some (runBlockAggs st (partitionBitset bm gbs key) data (lookupOrInit st ?table' key))
                     else ?table' key)"
    using Cons.IH Cons.prems by simp
  have "(if key \<in> (\<lambda>p. keys tk ! p) ` set rest \<and> groupRows bm gbs key \<noteq> []
                     then Some (runBlockAggs st (partitionBitset bm gbs key) data (lookupOrInit st ?table' key))
                     else ?table' key)
      = (if key \<in> (\<lambda>p. keys tk ! p) ` set (p # rest) \<and> groupRows bm gbs key \<noteq> []
                     then Some (runBlockAggs st (partitionBitset bm gbs key) data (lookupOrInit st table key))
                     else table key)" for key
  proof (cases "key = ?k")
    case True
    then show ?thesis using notin by simp
  next
    case False
    then show ?thesis by (simp add: lookupOrInit_def)
  qed
  then show ?case using step IH by simp
qed

lemma foldRows_nth:
  "i < length (blockRowAggs st) \<Longrightarrow>
   foldRows st data row rs ! i = foldl (\<lambda>acc r. snd (blockRowAggs st ! i) (rowData data r) acc) (row ! i) rs"
  by (induction rs arbitrary: row) (simp_all add: foldRows_def runRowAggs_def)

lemma length_foldRows:
  "rs \<noteq> [] \<Longrightarrow> length (foldRows st data row rs) = length (blockRowAggs st)"
proof (induction rs arbitrary: row)
  case Nil
  then show ?case by simp
next
  case (Cons r rs)
  show ?case
  proof (cases "rs = []")
    case True
    then show ?thesis by (simp add: foldRows_def runRowAggs_def)
  next
    case False
    then show ?thesis using Cons.IH [of "runRowAggs st (rowData data r) row"] by (simp add: foldRows_def)
  qed
qed

lemma isBoolBlock_partitionBitset: "isBoolBlock (partitionBitset bm gbs key)"
  by (simp add: isBoolBlock_def partitionBitset_def list_all_iff)

lemma selectedRows_partitionBitset: "selectedRows (partitionBitset bm gbs key) = groupRows bm gbs key"
proof -
  have "filter (\<lambda>r. partitionBitset bm gbs key ! r = Boolean True) [0..<length bm]
      = filter (\<lambda>r. rowKey gbs r = key \<and> bm ! r = Boolean True) [0..<length bm]"
    by (rule filter_cong) (auto simp: partitionBitset_def)
  then show ?thesis
    by (simp add: selectedRows_def groupRows_def partitionBitset_def conj_commute)
qed

lemma runBlockAggs_equiv:
  assumes eq: "accumulatorsEquivalent st" and ne: "groupRows bm gbs key \<noteq> []"
    and len: "\<forall>d \<in> set data. length d = length bm"
  shows "runBlockAggs st (partitionBitset bm gbs key) data row = foldRows st data row (groupRows bm gbs key)"
proof (rule nth_equalityI)
  show "length (runBlockAggs st (partitionBitset bm gbs key) data row) =
        length (foldRows st data row (groupRows bm gbs key))"
    using ne by (simp add: length_foldRows runBlockAggs_def)
  fix i assume "i < length (runBlockAggs st (partitionBitset bm gbs key) data row)"
  then have i: "i < length (blockRowAggs st)" by (simp add: runBlockAggs_def)
  then have mem: "blockRowAggs st ! i \<in> set (blockRowAggs st)" by simp
  have l: "\<forall>d \<in> set data. length d = length (partitionBitset bm gbs key)"
    using len by (simp add: partitionBitset_def)
  have s: "selectedRows (partitionBitset bm gbs key) \<noteq> []"
    using ne by (simp add: selectedRows_partitionBitset)
  have "fst (blockRowAggs st ! i) (partitionBitset bm gbs key) data (row ! i) =
        foldl (\<lambda>acc r. snd (blockRowAggs st ! i) (rowData data r) acc) (row ! i)
          (selectedRows (partitionBitset bm gbs key))"
    using eq mem isBoolBlock_partitionBitset [of bm gbs key] l s
    unfolding accumulatorsEquivalent_def by (cases "blockRowAggs st ! i") fastforce
  then show "runBlockAggs st (partitionBitset bm gbs key) data row ! i =
        foldRows st data row (groupRows bm gbs key) ! i"
    using i by (simp add: runBlockAggs_def foldRows_nth selectedRows_partitionBitset)
qed

lemma runAccumulatorsTokenized_char:
  assumes tk: "tokenizedFor gbs (length bm) tk" and bm: "isBoolBlock bm"
  shows "runAccumulatorsTokenized st tk bm data table =
         Inr (\<lambda>key. if groupRows bm gbs key \<noteq> []
                     then Some (runBlockAggs st (partitionBitset bm gbs key) data (lookupOrInit st table key))
                     else table key)"
proof -
  have mem: "key \<in> (\<lambda>p. keys tk ! p) ` set [0..<length (keys tk)]" if "groupRows bm gbs key \<noteq> []" for key
  proof -
    have "hd (groupRows bm gbs key) \<in> set (groupRows bm gbs key)" using that by simp
    then obtain r where "r \<in> set (groupRows bm gbs key)" ..
    then have r: "r < length bm" "rowKey gbs r = key"
      by (auto simp: groupRows_def selectedRows_def)
    have "keyIdxs tk ! r < length (keys tk)" "keys tk ! (keyIdxs tk ! r) = key"
      using tk r by (auto simp: tokenizedFor_def)
    then show ?thesis by force
  qed
  have "runPartitions st tk bm data [0..<length (keys tk)] table =
         Inr (\<lambda>key. if key \<in> (\<lambda>p. keys tk ! p) ` set [0..<length (keys tk)] \<and> groupRows bm gbs key \<noteq> []
                     then Some (runBlockAggs st (partitionBitset bm gbs key) data (lookupOrInit st table key))
                     else table key)"
    by (rule runPartitions_char [OF tk bm]) auto
  moreover have "(\<lambda>key. if key \<in> (\<lambda>p. keys tk ! p) ` set [0..<length (keys tk)] \<and> groupRows bm gbs key \<noteq> []
                     then Some (runBlockAggs st (partitionBitset bm gbs key) data (lookupOrInit st table key))
                     else table key)
      = (\<lambda>key. if groupRows bm gbs key \<noteq> []
                     then Some (runBlockAggs st (partitionBitset bm gbs key) data (lookupOrInit st table key))
                     else table key)"
    using mem by (intro ext) auto
  ultimately show ?thesis by (simp add: runAccumulatorsTokenized_def)
qed

lemma runAccumulatorsTokenized_spec:
  assumes tk: "tokenizedFor gbs (length bm) tk" and bm: "isBoolBlock bm"
    and eq: "accumulatorsEquivalent st" and len: "\<forall>d \<in> set data. length d = length bm"
  shows "runAccumulatorsTokenized st tk bm data table = Inr (groupBySpec st bm gbs data table)"
proof -
  have "(if groupRows bm gbs key \<noteq> []
         then Some (runBlockAggs st (partitionBitset bm gbs key) data (lookupOrInit st table key))
         else table key) = groupBySpec st bm gbs data table key" for key
    using runBlockAggs_equiv [OF eq _ len, of gbs key]
    by (cases "groupRows bm gbs key") (auto simp: groupBySpec_def)
  then show ?thesis using runAccumulatorsTokenized_char [OF tk bm, of st data table] by simp
qed

lemma tokenRow_rowKey:
  assumes v: "\<forall>gb \<in> set gbs. validTokenizedBlock gb (tok gb) \<and> length gb = n" and r: "r < n"
  shows "tokenRow (map tok gbs) (map (\<lambda>ti. idxs ti ! r) (map tok gbs)) = rowKey gbs r"
proof (rule nth_equalityI)
  show "length (tokenRow (map tok gbs) (map (\<lambda>ti. idxs ti ! r) (map tok gbs))) = length (rowKey gbs r)"
    by (simp add: tokenRow_def rowKey_def)
  fix c assume "c < length (tokenRow (map tok gbs) (map (\<lambda>ti. idxs ti ! r) (map tok gbs)))"
  then have c: "c < length gbs" by (simp add: tokenRow_def)
  then have "validTokenizedBlock (gbs ! c) (tok (gbs ! c))" "length (gbs ! c) = n"
    using v by auto
  then have "tokens (tok (gbs ! c)) ! (idxs (tok (gbs ! c)) ! r) = gbs ! c ! r"
    using validTokenizedBlock_nth [of "gbs ! c" "tok (gbs ! c)" r] r by simp
  then show "tokenRow (map tok gbs) (map (\<lambda>ti. idxs ti ! r) (map tok gbs)) ! c = rowKey gbs r ! c"
    using c by (simp add: tokenRow_def rowKey_def)
qed

lemma tokenizedFor_tryTokenizeGbs:
  assumes ne: "gbs \<noteq> []"
    and v: "\<forall>gb \<in> set gbs. validTokenizedBlock gb (tokenize st gb) \<and> length gb = n"
    and res: "tryTokenizeGbs st gbs n = Inr (Some tk)"
  shows "tokenizedFor gbs n tk"
proof -
  let ?tis = "map (tokenize st) gbs"
  let ?cks = "compoundKeyRows n ?tis"
  have r: "tokenInfosInRange n ?tis" by (rule tokenInfosInRange_valid [OF ne v])
  have d: "\<forall>ti \<in> set ?tis. distinct (tokens ti)" using v by (auto simp: validTokenizedBlock_def)
  have res': "tokenizeTokenInfos (kMaxNumPartitionsForTokenizedPath st) ?tis (map tokens ?tis) = Inr (Some tk)"
    using res tryTokenizeGbs_valid [OF v] by simp
  note wf = tokenizeTokenInfos_Some [OF r d res']
  have key: "keys tk ! (keyIdxs tk ! row) = rowKey gbs row" if row: "row < n" for row
  proof -
    have ck: "?cks ! row = map (\<lambda>ti. idxs ti ! row) ?tis" using row by (simp add: compoundKeyRows_def)
    have "row < length ?cks" using row by (simp add: compoundKeyRows_def)
    then have "?cks ! row \<in> set ?cks" by (rule nth_mem)
    then have mem: "?cks ! row \<in> set (firstSeen ?cks)"
      by (simp only: set_firstSeen)
    have "keyIdxs tk ! row = indexOf (firstSeen ?cks) (?cks ! row)"
      using wf row by (simp add: compoundKeyRows_def)
    then have "keys tk ! (keyIdxs tk ! row) = tokenRow ?tis (firstSeen ?cks ! indexOf (firstSeen ?cks) (?cks ! row))"
      using wf indexOf_less [OF mem] by simp
    also have "\<dots> = tokenRow ?tis (?cks ! row)" using nth_indexOf [OF mem] by simp
    also have "\<dots> = rowKey gbs row" unfolding ck by (rule tokenRow_rowKey [OF v row])
    finally show ?thesis .
  qed
  show ?thesis unfolding tokenizedFor_def using wf key by blast
qed

lemma batch_facts:
  assumes wf: "wellFormedBatch st env" and tv: "tokenizerValidOn st env"
    and bm: "env (blockBitsetInSlotId st) = ValueBlock bm"
  shows "isBoolBlock bm"
    and "gbBlocksOf st env (length bm) \<noteq> []"
    and "\<forall>b \<in> set (gbBlocksOf st env (length bm)) \<union> set (dataBlocksOf st env (length bm)). length b = length bm"
    and "\<forall>gb \<in> set (gbBlocksOf st env (length bm)). validTokenizedBlock gb (tokenize st gb) \<and> length gb = length bm"
proof -
  have w: "isBoolBlock bm \<and> groupSlots st \<noteq> [] \<and>
          (\<forall>b \<in> set (gbBlocksOf st env (length bm)) \<union> set (dataBlocksOf st env (length bm)).
             length b = length bm)"
    using wf unfolding wellFormedBatch_def bm SlotVal.case .
  show "isBoolBlock bm" using w by (elim conjE)
  have "groupSlots st \<noteq> []" using w by (elim conjE)
  then show "gbBlocksOf st env (length bm) \<noteq> []" by (simp only: gbBlocksOf_def map_is_Nil_conv not_False_eq_True)
  show l: "\<forall>b \<in> set (gbBlocksOf st env (length bm)) \<union> set (dataBlocksOf st env (length bm)). length b = length bm"
    using w by (elim conjE)
  have "\<forall>gb \<in> set (gbBlocksOf st env (length bm)). validTokenizedBlock gb (tokenize st gb)"
    using tv unfolding tokenizerValidOn_def bm SlotVal.case .
  then show "\<forall>gb \<in> set (gbBlocksOf st env (length bm)). validTokenizedBlock gb (tokenize st gb) \<and> length gb = length bm"
    using l by blast
qed

lemma tryTokenizeGbs_cases:
  assumes ne: "gbs \<noteq> []"
    and v: "\<forall>gb \<in> set gbs. validTokenizedBlock gb (tokenize st gb) \<and> length gb = n"
  shows "tryTokenizeGbs st gbs n =
         (if numPartitions n (map (tokenize st) gbs) \<le> kMaxNumPartitionsForTokenizedPath st
          then Inr (Some \<lparr>keys = map (tokenRow (map (tokenize st) gbs)) (firstSeen (compoundKeyRows n (map (tokenize st) gbs))),
                           keyIdxs = map (indexOf (firstSeen (compoundKeyRows n (map (tokenize st) gbs)))) (compoundKeyRows n (map (tokenize st) gbs))\<rparr>)
          else Inr None)"
  unfolding tryTokenizeGbs_valid [OF v]
  by (rule tokenizeTokenInfos_char [OF tokenInfosInRange_valid [OF ne v]])

lemma accumulateBlock_tokenized:
  assumes wf: "wellFormedBatch st env" and tv: "tokenizerValidOn st env"
    and bm: "env (blockBitsetInSlotId st) = ValueBlock bm"
    and le: "numPartitions (length bm) (map (tokenize st) (gbBlocksOf st env (length bm)))
            \<le> kMaxNumPartitionsForTokenizedPath st"
  shows "\<exists>tk. tryTokenizeGbs st (gbBlocksOf st env (length bm)) (length bm) = Inr (Some tk) \<and>
                tokenizedFor (gbBlocksOf st env (length bm)) (length bm) tk \<and>
                accumulateBlock st env table =
                  runAccumulatorsTokenized st tk bm (dataBlocksOf st env (length bm)) table"
proof -
  note f = batch_facts [OF wf tv bm]
  let ?gbs = "gbBlocksOf st env (length bm)"
  obtain tk where tk: "tryTokenizeGbs st ?gbs (length bm) = Inr (Some tk)"
    using tryTokenizeGbs_cases [OF f(2) f(4)] le by simp
  have t1: "tokenizedFor ?gbs (length bm) tk"
    by (rule tokenizedFor_tryTokenizeGbs [OF f(2) f(4) tk])
  have t2: "accumulateBlock st env table =
                runAccumulatorsTokenized st tk bm (dataBlocksOf st env (length bm)) table"
    using bm tk by (simp add: accumulateBlock_def Let_def)
  show ?thesis using tk t1 t2 by (intro exI [of _ tk]) simp
qed

lemma accumulateBlock_fallback:
  assumes wf: "wellFormedBatch st env" and tv: "tokenizerValidOn st env"
    and bm: "env (blockBitsetInSlotId st) = ValueBlock bm"
    and gt: "kMaxNumPartitionsForTokenizedPath st
            < numPartitions (length bm) (map (tokenize st) (gbBlocksOf st env (length bm)))"
  shows "tryTokenizeGbs st (gbBlocksOf st env (length bm)) (length bm) = Inr None \<and>
          accumulateBlock st env table =
            runAccumulatorsElementWise st bm (gbBlocksOf st env (length bm))
              (dataBlocksOf st env (length bm)) table"
proof -
  note f = batch_facts [OF wf tv bm]
  let ?gbs = "gbBlocksOf st env (length bm)"
  have n: "tryTokenizeGbs st ?gbs (length bm) = Inr None"
    using tryTokenizeGbs_cases [OF f(2) f(4)] gt by simp
  then have "accumulateBlock st env table =
            runAccumulatorsElementWise st bm ?gbs (dataBlocksOf st env (length bm)) table"
    using bm by (simp add: accumulateBlock_def Let_def)
  then show ?thesis using n by simp
qed

lemma accumulateBlock_spec:
  assumes wf: "wellFormedBatch st env" and tv: "tokenizerValidOn st env"
    and eq: "accumulatorsEquivalent st"
  shows "accumulateBlock st env table = Inr (accumulateSpec st env table)"
proof -
  obtain bm where bm: "env (blockBitsetInSlotId st) = ValueBlock bm"
    using wf by (cases "env (blockBitsetInSlotId st)") (simp_all add: wellFormedBatch_def)
  note f = batch_facts [OF wf tv bm]
  let ?gbs = "gbBlocksOf st env (length bm)"
  let ?data = "dataBlocksOf st env (length bm)"
  have spec: "accumulateSpec st env table = groupBySpec st bm ?gbs ?data table"
    using bm by (simp add: accumulateSpec_def)
  have d: "\<forall>d \<in> set ?data. length d = length bm" using f(3) by blast
  show ?thesis
  proof (cases "numPartitions (length bm) (map (tokenize st) ?gbs) \<le> kMaxNumPartitionsForTokenizedPath st")
    case True
    obtain tk where tk: "tokenizedFor ?gbs (length bm) tk"
      "accumulateBlock st env table = runAccumulatorsTokenized st tk bm ?data table"
      using accumulateBlock_tokenized [OF wf tv bm True, of table] by (elim exE conjE)
    have "runAccumulatorsTokenized st tk bm ?data table = Inr (groupBySpec st bm ?gbs ?data table)"
      by (rule runAccumulatorsTokenized_spec [OF tk(1) f(1) eq d])
    then show ?thesis using tk(2) spec by simp
  next
    case False
    then have "accumulateBlock st env table = runAccumulatorsElementWise st bm ?gbs ?data table"
      using accumulateBlock_fallback [OF wf tv bm, of table] by simp
    then show ?thesis using runAccumulatorsElementWise_spec [OF f(1) f(3), of st table] spec by simp
  qed
qed

lemmas eval_defs =
  runStage_def openStage_def initialState_def finishOpen_def spill_def
  checkMemoryUsageAndSpillIfNecessary_def accumulateBlock_def gbBlocksOf_def dataBlocksOf_def
  slotBlock_def tryTokenizeGbs_def tokenizeTokenInfos_def compoundKeys_def materializeKey_def
  readAt_def runAccumulatorsTokenized_def runAccumulatorsElementWise_def
  executeBlockLevelAccumulatorCode_def bitAnd_def computeBitmapForPartition_def
  runBlockAggs_def runRowAggs_def lookupOrInit_def getNext_def getNextSpilled_def
  getNextSpilledHelper_def processRow_def populateBitmapSlot_def
  exampleStage_def exampleInput_def batch_def tokenizeBlock_def firstSeen_def indexOf_def
  countRowAgg_def countBlockAgg_def sumRowAgg_def sumBlockAgg_def addMerge_def numberOf_def
  iterKeys_def selectedRows_def List.map_filter_def Let_def

lemma wellFormedBatch_bitmap:
  assumes "wellFormedBatch st env"
  obtains bm where "env (blockBitsetInSlotId st) = ValueBlock bm"
  using assms by (cases "env (blockBitsetInSlotId st)") (simp_all only: wellFormedBatch_def SlotVal.case)

text \<open>
  Claim C3. For a well-formed batch and a valid tokenizer, the batch is processed by
  the tokenized path whenever its number of distinct compound keys is at most
  \<open>kMaxNumPartitionsForTokenizedPath\<close> (in particular when it equals the ceiling), and
  tokenization returns no result, without a fatal outcome, and the batch is processed
  by the row-wise path whenever the number is larger (ceiling + 1 or more).
\<close>

theorem tokenization_ceiling:
  assumes wf: "wellFormedBatch st env" and tv: "tokenizerValidOn st env"
  shows "(batchPartitions st env \<le> kMaxNumPartitionsForTokenizedPath st \<longrightarrow>
            processedTokenized st env table) \<and>
         (kMaxNumPartitionsForTokenizedPath st < batchPartitions st env \<longrightarrow>
            processedElementWise st env table)"
proof -
  obtain bm where bm: "env (blockBitsetInSlotId st) = ValueBlock bm"
    using wf by (rule wellFormedBatch_bitmap)
  have 1: "processedTokenized st env table"
    if "batchPartitions st env \<le> kMaxNumPartitionsForTokenizedPath st"
  proof -
    have le: "numPartitions (length bm) (map (tokenize st) (gbBlocksOf st env (length bm)))
            \<le> kMaxNumPartitionsForTokenizedPath st"
      using that by (simp add: batchPartitions_def bm)
    obtain tk where "tryTokenizeGbs st (gbBlocksOf st env (length bm)) (length bm) = Inr (Some tk)"
      "accumulateBlock st env table =
         runAccumulatorsTokenized st tk bm (dataBlocksOf st env (length bm)) table"
      using accumulateBlock_tokenized [OF wf tv bm le, of table] by blast
    then show ?thesis by (simp add: processedTokenized_def bm)
  qed
  have 2: "processedElementWise st env table"
    if "kMaxNumPartitionsForTokenizedPath st < batchPartitions st env"
  proof -
    have "kMaxNumPartitionsForTokenizedPath st
            < numPartitions (length bm) (map (tokenize st) (gbBlocksOf st env (length bm)))"
      using that by (simp add: batchPartitions_def bm)
    then show ?thesis
      using accumulateBlock_fallback [OF wf tv bm, of table] by (simp add: processedElementWise_def bm)
  qed
  show ?thesis using 1 2 by blast
qed

lemma validTokenizedBlock_tokenizeBlock: "validTokenizedBlock b (tokenizeBlock b)"
proof -
  have "list_all2 (\<lambda>v i. i < length (firstSeen b) \<and> firstSeen b ! i = v) b (map (indexOf (firstSeen b)) b)"
    by (simp add: list_all2_map2 list_all2_same indexOf_less nth_indexOf set_firstSeen)
  then show ?thesis by (simp add: validTokenizedBlock_def tokenizeBlock_def distinct_firstSeen)
qed

lemma tokenizerValidOn_tokenizeBlock:
  "tokenize st = tokenizeBlock \<Longrightarrow> env (blockBitsetInSlotId st) = ValueBlock bm \<Longrightarrow> tokenizerValidOn st env"
  by (simp add: tokenizerValidOn_def validTokenizedBlock_tokenizeBlock)

lemmas wf_defs = wellFormedBatch_def isBoolBlock_def gbBlocksOf_def dataBlocksOf_def slotBlock_def
  exampleStage_def batch_def

theorem tokenization_ceiling_witness:
  "batchPartitions exampleStage (batch [True, False, True, True, True] [''A'', ''B'', ''C'', ''D'', ''E''] [1, 2, 3, 4, 5]) = 5 \<and>
   processedTokenized exampleStage (batch [True, False, True, True, True] [''A'', ''B'', ''C'', ''D'', ''E''] [1, 2, 3, 4, 5]) Map.empty \<and>
   batchPartitions exampleStage (batch [True, False, True, True, True, True] [''A'', ''B'', ''C'', ''D'', ''E'', ''F''] [1, 2, 3, 4, 5, 6]) = 6 \<and>
   processedElementWise exampleStage (batch [True, False, True, True, True, True] [''A'', ''B'', ''C'', ''D'', ''E'', ''F''] [1, 2, 3, 4, 5, 6]) Map.empty"
proof -
  let ?e5 = "batch [True, False, True, True, True] [''A'', ''B'', ''C'', ''D'', ''E''] [1, 2, 3, 4, 5]"
  let ?e6 = "batch [True, False, True, True, True, True] [''A'', ''B'', ''C'', ''D'', ''E'', ''F''] [1, 2, 3, 4, 5, 6]"
  have k: "kMaxNumPartitionsForTokenizedPath exampleStage = 5" by (simp add: exampleStage_def)
  have wf5: "wellFormedBatch exampleStage ?e5" by (simp add: wf_defs)
  have wf6: "wellFormedBatch exampleStage ?e6" by (simp add: wf_defs)
  have tv5: "tokenizerValidOn exampleStage ?e5"
    by (rule tokenizerValidOn_tokenizeBlock) (simp_all add: exampleStage_def batch_def)
  have tv6: "tokenizerValidOn exampleStage ?e6"
    by (rule tokenizerValidOn_tokenizeBlock) (simp_all add: exampleStage_def batch_def)
  have p5: "batchPartitions exampleStage ?e5 = 5"
    by (simp add: batchPartitions_def numPartitions_def compoundKeyRows_def eval_defs)
  have p6: "batchPartitions exampleStage ?e6 = 6"
    by (simp add: batchPartitions_def numPartitions_def compoundKeyRows_def eval_defs)
  show ?thesis
    using tokenization_ceiling [OF wf5 tv5, of Map.empty] tokenization_ceiling [OF wf6 tv6, of Map.empty]
    by (simp add: p5 p6 k)
qed

text \<open>
  Claim C10. Whenever \<open>tokenizeTokenInfos\<close> returns a result for valid token sets, the
  result is well-formed: the index array has one entry per row, every index is a valid
  position into the keys, the keys are pairwise distinct, there are at most
  \<open>kMax\<close> of them, and the ordinals follow the first-seen order of the rows' compound
  keys (key \<open>p\<close> is the token row of the \<open>p\<close>-th distinct compound key, and the index
  of a row is the position of its compound key among the distinct ones).
\<close>

theorem tokenization_wellFormed:
  assumes "tokenInfosInRange n tokenInfos"
    and "\<forall>ti \<in> set tokenInfos. distinct (tokens ti)"
    and "tokenizeTokenInfos kMax tokenInfos (map tokens tokenInfos) = Inr (Some tokenizedKeys)"
  shows "length (keyIdxs tokenizedKeys) = n \<and>
         (\<forall>i \<in> set (keyIdxs tokenizedKeys). i < length (keys tokenizedKeys)) \<and>
         distinct (keys tokenizedKeys) \<and>
         length (keys tokenizedKeys) \<le> kMax \<and>
         keys tokenizedKeys = map (tokenRow tokenInfos) (firstSeen (compoundKeyRows n tokenInfos)) \<and>
         keyIdxs tokenizedKeys =
           map (indexOf (firstSeen (compoundKeyRows n tokenInfos))) (compoundKeyRows n tokenInfos)"
  using assms by (rule tokenizeTokenInfos_Some)

theorem tokenization_wellFormed_witness:
  "tokenInfosInRange 4
     [\<lparr>tokens = [StringBig ''A'', StringBig ''B''], idxs = [0, 1, 0, 1]\<rparr>,
      \<lparr>tokens = [NumberInt64 7], idxs = [0, 0, 0, 0]\<rparr>] \<and>
   tokenizeTokenInfos 5
     [\<lparr>tokens = [StringBig ''A'', StringBig ''B''], idxs = [0, 1, 0, 1]\<rparr>,
      \<lparr>tokens = [NumberInt64 7], idxs = [0, 0, 0, 0]\<rparr>]
     [[StringBig ''A'', StringBig ''B''], [NumberInt64 7]] =
   Inr (Some \<lparr>keys = [[StringBig ''A'', NumberInt64 7], [StringBig ''B'', NumberInt64 7]],
               keyIdxs = [0, 1, 0, 1]\<rparr>) \<and>
   distinct [[StringBig ''A'', NumberInt64 7], [StringBig ''B'', NumberInt64 7]] \<and>
   length [[StringBig ''A'', NumberInt64 7], [StringBig ''B'', NumberInt64 7]] \<le> (5::nat) \<and>
   list_all (\<lambda>i. i < length [[StringBig ''A'', NumberInt64 7], [StringBig ''B'', NumberInt64 7]])
     [0, 1, 0, 1::nat]"
proof -
  let ?tis = "[\<lparr>tokens = [StringBig ''A'', StringBig ''B''], idxs = [0, 1, 0, 1]\<rparr>,
      \<lparr>tokens = [NumberInt64 7], idxs = [0, 0, 0, 0]\<rparr>]"
  let ?tk = "\<lparr>keys = [[StringBig ''A'', NumberInt64 7], [StringBig ''B'', NumberInt64 7]],
               keyIdxs = [0, 1, 0, 1]\<rparr>"
  have r: "tokenInfosInRange 4 ?tis" by (simp add: tokenInfosInRange_def)
  have d: "\<forall>ti \<in> set ?tis. distinct (tokens ti)" by simp
  have t: "tokenizeTokenInfos 5 ?tis (map tokens ?tis) = Inr (Some ?tk)"
    by (simp add: tokenizeTokenInfos_def compoundKeys_def materializeKey_def readAt_def)
  have "distinct (keys ?tk) \<and> length (keys ?tk) \<le> 5 \<and>
        (\<forall>i \<in> set (keyIdxs ?tk). i < length (keys ?tk))"
    using tokenization_wellFormed [OF r d t] by blast
  then show ?thesis using r t by simp
qed

lemma selectedKeys_groupRows:
  "env (blockBitsetInSlotId st) = ValueBlock bm \<Longrightarrow>
   (key \<in> selectedKeys st env) = (groupRows bm (gbBlocksOf st env (length bm)) key \<noteq> [])"
  by (auto simp: selectedKeys_def groupRows_def filter_empty_conv)

lemma groupBySpec_untouched:
  "groupRows bm gbs key = [] \<Longrightarrow> groupBySpec st bm gbs data table key = table key"
  by (simp add: groupBySpec_def)

lemma groupBySpec_touched:
  "groupRows bm gbs key \<noteq> [] \<Longrightarrow> groupBySpec st bm gbs data table key \<noteq> None"
  by (cases "groupRows bm gbs key") (simp_all add: groupBySpec_def)

lemma accumulateBlock_keys:
  assumes wf: "wellFormedBatch st env" and tv: "tokenizerValidOn st env"
  shows "\<exists>table'. accumulateBlock st env table = Inr table' \<and>
           (\<forall>key. key \<notin> selectedKeys st env \<longrightarrow> table' key = table key) \<and>
           (\<forall>key. key \<in> selectedKeys st env \<longrightarrow> table' key \<noteq> None)"
proof -
  obtain bm where bm: "env (blockBitsetInSlotId st) = ValueBlock bm"
    using wf by (rule wellFormedBatch_bitmap)
  note f = batch_facts [OF wf tv bm]
  let ?gbs = "gbBlocksOf st env (length bm)"
  let ?data = "dataBlocksOf st env (length bm)"
  note sk = selectedKeys_groupRows [where st = st and env = env and bm = bm, OF bm]
  show ?thesis
  proof (cases "numPartitions (length bm) (map (tokenize st) ?gbs) \<le> kMaxNumPartitionsForTokenizedPath st")
    case True
    obtain tk where tk: "tokenizedFor ?gbs (length bm) tk"
      "accumulateBlock st env table = runAccumulatorsTokenized st tk bm ?data table"
      using accumulateBlock_tokenized [OF wf tv bm True, of table] by blast
    let ?t = "\<lambda>key. if groupRows bm ?gbs key \<noteq> []
                     then Some (runBlockAggs st (partitionBitset bm ?gbs key) ?data (lookupOrInit st table key))
                     else table key"
    have "accumulateBlock st env table = Inr ?t"
      using tk(2) runAccumulatorsTokenized_char [OF tk(1) f(1), of st ?data table] by simp
    moreover have "\<forall>key. key \<notin> selectedKeys st env \<longrightarrow> ?t key = table key" by (simp add: sk)
    moreover have "\<forall>key. key \<in> selectedKeys st env \<longrightarrow> ?t key \<noteq> None" by (simp add: sk)
    ultimately show ?thesis by blast
  next
    case False
    let ?t = "groupBySpec st bm ?gbs ?data table"
    have "accumulateBlock st env table = runAccumulatorsElementWise st bm ?gbs ?data table"
      using accumulateBlock_fallback [OF wf tv bm, of table] False by simp
    then have "accumulateBlock st env table = Inr ?t"
      using runAccumulatorsElementWise_spec [OF f(1) f(3), of st table] by simp
    moreover have "\<forall>key. key \<notin> selectedKeys st env \<longrightarrow> ?t key = table key"
      by (simp add: sk groupBySpec_untouched)
    moreover have "\<forall>key. key \<in> selectedKeys st env \<longrightarrow> ?t key \<noteq> None"
      by (simp add: sk groupBySpec_touched)
    ultimately show ?thesis by blast
  qed
qed

text \<open>
  Claim C4. Processing a well-formed batch succeeds and leaves every key without a
  selected row exactly as it was (neither created nor changed); the keys of the new
  table are the old ones and the keys of the selected rows, so a batch whose bitset is
  entirely false leaves the table unchanged. On the tokenized path, a partition whose
  bitset is entirely false does not touch the table.
\<close>

theorem unselected_keys_untouched:
  assumes wf: "wellFormedBatch st env" and tv: "tokenizerValidOn st env"
  shows "(\<exists>table'. accumulateBlock st env table = Inr table' \<and>
            (\<forall>key. key \<notin> selectedKeys st env \<longrightarrow> table' key = table key) \<and>
            dom table' = dom table \<union> selectedKeys st env \<and>
            (selectedKeys st env = {} \<longrightarrow> table' = table)) \<and>
         (\<forall>accBitset dataBlocks key.
            allFalse accBitset = Inr True \<longrightarrow>
            executeBlockLevelAccumulatorCode st accBitset dataBlocks key table = Inr table)"
proof -
  obtain table' where t: "accumulateBlock st env table = Inr table'"
    "\<forall>key. key \<notin> selectedKeys st env \<longrightarrow> table' key = table key"
    "\<forall>key. key \<in> selectedKeys st env \<longrightarrow> table' key \<noteq> None"
    using accumulateBlock_keys [OF wf tv, of table] by blast
  have d: "dom table' = dom table \<union> selectedKeys st env"
  proof (rule set_eqI)
    fix key show "(key \<in> dom table') = (key \<in> dom table \<union> selectedKeys st env)"
      using t(2,3) by (cases "key \<in> selectedKeys st env") (auto simp: dom_def)
  qed
  have e: "selectedKeys st env = {} \<longrightarrow> table' = table"
    using t(2) by (auto intro!: ext)
  have "\<exists>table'. accumulateBlock st env table = Inr table' \<and>
            (\<forall>key. key \<notin> selectedKeys st env \<longrightarrow> table' key = table key) \<and>
            dom table' = dom table \<union> selectedKeys st env \<and>
            (selectedKeys st env = {} \<longrightarrow> table' = table)"
    using t(1,2) d e by blast
  moreover have "\<forall>accBitset dataBlocks key.
            allFalse accBitset = Inr True \<longrightarrow>
            executeBlockLevelAccumulatorCode st accBitset dataBlocks key table = Inr table"
    by (simp add: executeBlockLevelAccumulatorCode_def)
  ultimately show ?thesis by blast
qed

lemma ceiling_wellFormedBatch [simp]:
  "wellFormedBatch (st\<lparr>kMaxNumPartitionsForTokenizedPath := c\<rparr>) env = wellFormedBatch st env"
  by (simp add: wellFormedBatch_def gbBlocksOf_def dataBlocksOf_def cong: SlotVal.case_cong)

lemma ceiling_tokenizerValidOn [simp]:
  "tokenizerValidOn (st\<lparr>kMaxNumPartitionsForTokenizedPath := c\<rparr>) env = tokenizerValidOn st env"
  by (simp add: tokenizerValidOn_def gbBlocksOf_def cong: SlotVal.case_cong)

lemma ceiling_accumulatorsEquivalent [simp]:
  "accumulatorsEquivalent (st\<lparr>kMaxNumPartitionsForTokenizedPath := c\<rparr>) = accumulatorsEquivalent st"
  by (simp add: accumulatorsEquivalent_def)

lemma ceiling_foldRows [simp]:
  "foldRows (st\<lparr>kMaxNumPartitionsForTokenizedPath := c\<rparr>) = foldRows st"
  by (intro ext) (simp add: foldRows_def runRowAggs_def)

lemma ceiling_lookupOrInit [simp]:
  "lookupOrInit (st\<lparr>kMaxNumPartitionsForTokenizedPath := c\<rparr>) = lookupOrInit st"
  by (intro ext) (simp add: lookupOrInit_def split: option.splits)

lemma ceiling_accumulateSpec [simp]:
  "accumulateSpec (st\<lparr>kMaxNumPartitionsForTokenizedPath := c\<rparr>) env table = accumulateSpec st env table"
  by (simp add: accumulateSpec_def groupBySpec_def gbBlocksOf_def dataBlocksOf_def
      cong: SlotVal.case_cong list.case_cong)

lemma ceiling_accumulateBlock:
  assumes "accumulatorsEquivalent st" and "wellFormedBatch st env" and "tokenizerValidOn st env"
  shows "accumulateBlock (st\<lparr>kMaxNumPartitionsForTokenizedPath := c\<rparr>) env table =
         accumulateBlock st env table"
  using accumulateBlock_spec [of "st\<lparr>kMaxNumPartitionsForTokenizedPath := c\<rparr>" env table]
    accumulateBlock_spec [of st env table] assms by simp

lemma ceiling_spill [simp]:
  "spill (st\<lparr>kMaxNumPartitionsForTokenizedPath := c\<rparr>) s = spill st s"
  by (simp add: spill_def)

lemma ceiling_checkMemory [simp]:
  "checkMemoryUsageAndSpillIfNecessary (st\<lparr>kMaxNumPartitionsForTokenizedPath := c\<rparr>) s =
   checkMemoryUsageAndSpillIfNecessary st s"
  by (simp add: checkMemoryUsageAndSpillIfNecessary_def)

lemma ceiling_consumeInput:
  assumes "accumulatorsEquivalent st"
    and "\<forall>env \<in> set envs. wellFormedBatch st env \<and> tokenizerValidOn st env"
  shows "consumeInput (st\<lparr>kMaxNumPartitionsForTokenizedPath := c\<rparr>) envs s = consumeInput st envs s"
  using assms(2)
proof (induction envs arbitrary: s)
  case Nil
  then show ?case by simp
next
  case (Cons env envs)
  have "accumulateBlock (st\<lparr>kMaxNumPartitionsForTokenizedPath := c\<rparr>) env (ht s) =
        accumulateBlock st env (ht s)"
    using Cons.prems assms(1) by (intro ceiling_accumulateBlock) simp_all
  then show ?case using Cons by (simp split: sum.splits)
qed

lemma ceiling_finishOpen [simp]:
  "finishOpen (st\<lparr>kMaxNumPartitionsForTokenizedPath := c\<rparr>) s = finishOpen st s"
  by (simp add: finishOpen_def cong: option.case_cong)

lemma ceiling_processRow [simp]:
  "processRow (st\<lparr>kMaxNumPartitionsForTokenizedPath := c\<rparr>) rs row = processRow st rs row"
  by (simp add: processRow_def)

lemma ceiling_mergeSameKey [simp]:
  "mergeSameKey (st\<lparr>kMaxNumPartitionsForTokenizedPath := c\<rparr>) k rs cur = mergeSameKey st k rs cur"
  by (induction cur arbitrary: rs) (simp_all cong: sum.case_cong)

lemma ceiling_getNextSpilledHelper [simp]:
  "getNextSpilledHelper (st\<lparr>kMaxNumPartitionsForTokenizedPath := c\<rparr>) s = getNextSpilledHelper st s"
  by (simp add: getNextSpilledHelper_def cong: option.case_cong sum.case_cong prod.case_cong)

lemma ceiling_getNextSpilledLoop [simp]:
  "getNextSpilledLoop (st\<lparr>kMaxNumPartitionsForTokenizedPath := c\<rparr>) n i s = getNextSpilledLoop st n i s"
  by (induction n arbitrary: i s) (simp_all split: sum.splits option.splits prod.splits)

lemma ceiling_getNextSpilled [simp]:
  "getNextSpilled (st\<lparr>kMaxNumPartitionsForTokenizedPath := c\<rparr>) s = getNextSpilled st s"
  by (simp add: getNextSpilled_def)

lemma ceiling_getNextFromTable [simp]:
  "getNextFromTable (st\<lparr>kMaxNumPartitionsForTokenizedPath := c\<rparr>) n i s = getNextFromTable st n i s"
  by (induction n arbitrary: i s) (simp_all add: Let_def split: option.splits)

lemma ceiling_getNext [simp]:
  "getNext (st\<lparr>kMaxNumPartitionsForTokenizedPath := c\<rparr>) s = getNext st s"
  by (simp add: getNext_def Let_def)

lemma ceiling_drain [simp]:
  "drain (st\<lparr>kMaxNumPartitionsForTokenizedPath := c\<rparr>) fuel s = drain st fuel s"
  by (induction fuel arbitrary: s) (simp_all split: sum.splits prod.splits PlanState.splits option.splits)

lemma ceiling_runStage:
  assumes "accumulatorsEquivalent st"
    and "\<forall>env \<in> set envs. wellFormedBatch st env \<and> tokenizerValidOn st env"
  shows "runStage (st\<lparr>kMaxNumPartitionsForTokenizedPath := c\<rparr>) envs fuel = runStage st envs fuel"
  using ceiling_consumeInput [OF assms]
  by (simp add: runStage_def openStage_def cong: sum.case_cong)

lemma pathsAgree_holds:
  assumes eq: "accumulatorsEquivalent st" and wf: "wellFormedBatch st env" and tv: "tokenizerValidOn st env"
  shows "pathsAgree st env"
proof -
  obtain bm where bm: "env (blockBitsetInSlotId st) = ValueBlock bm"
    using wf by (rule wellFormedBatch_bitmap)
  note f = batch_facts [OF wf tv bm]
  let ?gbs = "gbBlocksOf st env (length bm)"
  let ?data = "dataBlocksOf st env (length bm)"
  have d: "\<forall>d \<in> set ?data. length d = length bm" using f(3) by blast
  have "runAccumulatorsTokenized st tk bm ?data table = runAccumulatorsElementWise st bm ?gbs ?data table"
    if tk: "tryTokenizeGbs st ?gbs (length bm) = Inr (Some tk)" for tk table
  proof -
    have "tokenizedFor ?gbs (length bm) tk" by (rule tokenizedFor_tryTokenizeGbs [OF f(2) f(4) tk])
    then have "runAccumulatorsTokenized st tk bm ?data table = Inr (groupBySpec st bm ?gbs ?data table)"
      by (rule runAccumulatorsTokenized_spec [OF _ f(1) eq d])
    then show ?thesis using runAccumulatorsElementWise_spec [OF f(1) f(3), of st table] by simp
  qed
  then show ?thesis by (simp add: pathsAgree_def bm)
qed

text \<open>
  Claim C1. With accumulators whose block-level and row-level expressions are
  equivalent reductions, and well-formed batches, the output of the stage does not
  depend on the ceiling, that is on which batches take the tokenized and which the
  row-wise path: a ceiling above every row count sends every batch with a row to the
  tokenized path, ceiling 0 sends it to the row-wise path. On every batch the two
  paths give the same table whenever the tokenized one is applicable.
\<close>

theorem path_choice_not_observable:
  assumes "accumulatorsEquivalent st"
    and "\<forall>env \<in> set envs. wellFormedBatch st env \<and> tokenizerValidOn st env"
  shows "runStage (st\<lparr>kMaxNumPartitionsForTokenizedPath := c1\<rparr>) envs fuel =
         runStage (st\<lparr>kMaxNumPartitionsForTokenizedPath := c2\<rparr>) envs fuel \<and>
         (\<forall>env \<in> set envs. pathsAgree (st\<lparr>kMaxNumPartitionsForTokenizedPath := c1\<rparr>) env)"
proof -
  have "runStage (st\<lparr>kMaxNumPartitionsForTokenizedPath := c1\<rparr>) envs fuel =
        runStage (st\<lparr>kMaxNumPartitionsForTokenizedPath := c2\<rparr>) envs fuel"
    using ceiling_runStage [OF assms, of c1 fuel] ceiling_runStage [OF assms, of c2 fuel] by simp
  moreover have "pathsAgree (st\<lparr>kMaxNumPartitionsForTokenizedPath := c1\<rparr>) env" if "env \<in> set envs" for env
    using that assms by (intro pathsAgree_holds) simp_all
  ultimately show ?thesis by blast
qed

lemma foldl_count:
  "rs \<noteq> [] \<Longrightarrow> foldl (\<lambda>acc r. countRowAgg (f r) acc) prev rs = NumberInt64 (numberOf prev + int (length rs))"
proof (induction rs arbitrary: prev)
  case Nil
  then show ?case by simp
next
  case (Cons r rs)
  then show ?case by (cases "rs = []") (simp_all add: countRowAgg_def numberOf_def)
qed

lemma foldl_sum:
  "rs \<noteq> [] \<Longrightarrow> foldl (\<lambda>acc r. sumRowAgg (rowData data r) acc) prev rs =
     NumberInt64 (numberOf prev + sum_list (map (\<lambda>r. case data of [] \<Rightarrow> 0 | d # _ \<Rightarrow> numberOf (d ! r)) rs))"
proof (induction rs arbitrary: prev)
  case Nil
  then show ?case by simp
next
  case (Cons r rs)
  have "sumRowAgg (rowData data r) prev =
        NumberInt64 (numberOf prev + (case data of [] \<Rightarrow> 0 | d # _ \<Rightarrow> numberOf (d ! r)))"
    by (cases data) (simp_all add: sumRowAgg_def rowData_def)
  then show ?case using Cons.IH [of "sumRowAgg (rowData data r) prev"]
    by (cases "rs = []") (simp_all add: numberOf_def)
qed

lemma accumulatorsEquivalent_example: "accumulatorsEquivalent exampleStage"
  by (simp add: accumulatorsEquivalent_def exampleStage_def foldl_count foldl_sum
      countBlockAgg_def sumBlockAgg_def)

lemma ceiling_example [simp]:
  "blockRowAggs (exampleStage\<lparr>kMaxNumPartitionsForTokenizedPath := c\<rparr>) = blockRowAggs exampleStage"
  by simp

lemma wellFormed_exampleInput:
  "\<forall>env \<in> set exampleInput. wellFormedBatch exampleStage env \<and> tokenizerValidOn exampleStage env"
  by (simp add: exampleInput_def wf_defs tokenizerValidOn_def validTokenizedBlock_tokenizeBlock)

theorem path_choice_not_observable_witness:
  "runStage (exampleStage\<lparr>kMaxNumPartitionsForTokenizedPath := 5\<rparr>) exampleInput 5 =
   runStage (exampleStage\<lparr>kMaxNumPartitionsForTokenizedPath := 0\<rparr>) exampleInput 5 \<and>
   runStage (exampleStage\<lparr>kMaxNumPartitionsForTokenizedPath := 5\<rparr>) exampleInput 5 =
     Some (Inr [([StringBig ''A''], [NumberInt64 3, NumberInt64 7]),
                ([StringBig ''B''], [NumberInt64 3, NumberInt64 14])]) \<and>
   list_all (\<lambda>env. 0 < batchPartitions exampleStage env \<and> batchPartitions exampleStage env \<le> 5) exampleInput"
proof -
  have r: "runStage (exampleStage\<lparr>kMaxNumPartitionsForTokenizedPath := 5\<rparr>) exampleInput 5 =
     Some (Inr [([StringBig ''A''], [NumberInt64 3, NumberInt64 7]),
                ([StringBig ''B''], [NumberInt64 3, NumberInt64 14])])"
    by (simp add: eval_defs eval_nat_numeral)
  have p: "list_all (\<lambda>env. 0 < batchPartitions exampleStage env \<and> batchPartitions exampleStage env \<le> 5) exampleInput"
    by (simp add: batchPartitions_def numPartitions_def compoundKeyRows_def eval_defs)
  have e: "runStage (exampleStage\<lparr>kMaxNumPartitionsForTokenizedPath := 5\<rparr>) exampleInput 5 =
   runStage (exampleStage\<lparr>kMaxNumPartitionsForTokenizedPath := 0\<rparr>) exampleInput 5"
    using path_choice_not_observable [OF accumulatorsEquivalent_example wellFormed_exampleInput, of 5 5 0]
    by (rule conjunct1)
  show ?thesis by (intro conjI) (rule e, rule r, rule p)
qed

lemma agree_accumulateSpec:
  assumes "agreeOnSelected st env1 env2"
  shows "accumulateSpec st env1 table = accumulateSpec st env2 table"
proof -
  obtain bm where bm1: "env1 (blockBitsetInSlotId st) = ValueBlock bm"
    using assms by (cases "env1 (blockBitsetInSlotId st)") (simp_all add: agreeOnSelected_def)
  have bm2: "env2 (blockBitsetInSlotId st) = ValueBlock bm"
    using assms bm1 by (simp add: agreeOnSelected_def)
  let ?g1 = "gbBlocksOf st env1 (length bm)" and ?g2 = "gbBlocksOf st env2 (length bm)"
  let ?d1 = "dataBlocksOf st env1 (length bm)" and ?d2 = "dataBlocksOf st env2 (length bm)"
  have k: "\<And>r. r \<in> set (selectedRows bm) \<Longrightarrow> rowKey ?g1 r = rowKey ?g2 r"
    and d: "\<And>r. r \<in> set (selectedRows bm) \<Longrightarrow> rowData ?d1 r = rowData ?d2 r"
    using assms bm1 by (simp_all add: agreeOnSelected_def)
  have g: "groupRows bm ?g1 key = groupRows bm ?g2 key" for key
    unfolding groupRows_def by (rule filter_cong) (simp_all add: k)
  have f: "foldRows st ?d1 row rs = foldRows st ?d2 row rs" if "set rs \<subseteq> set (selectedRows bm)" for row rs
    unfolding foldRows_def using that by (intro foldl_cong) (auto simp: d)
  have "groupBySpec st bm ?g1 ?d1 table key = groupBySpec st bm ?g2 ?d2 table key" for key
  proof (cases "groupRows bm ?g2 key")
    case Nil
    then show ?thesis by (simp add: groupBySpec_def g)
  next
    case (Cons r rs)
    have "set (groupRows bm ?g2 key) \<subseteq> set (selectedRows bm)" by (auto simp: groupRows_def)
    then have "foldRows st ?d1 (lookupOrInit st table key) (r # rs) =
               foldRows st ?d2 (lookupOrInit st table key) (r # rs)"
      using f Cons by simp
    then show ?thesis using Cons by (simp add: groupBySpec_def g)
  qed
  then show ?thesis by (simp add: accumulateSpec_def bm1 bm2 fun_eq_iff)
qed

lemma agree_consumeInput:
  assumes eq: "accumulatorsEquivalent st"
    and "list_all2 (agreeOnSelected st) envs1 envs2"
    and "\<forall>env \<in> set envs1. wellFormedBatch st env \<and> tokenizerValidOn st env"
    and "\<forall>env \<in> set envs2. wellFormedBatch st env \<and> tokenizerValidOn st env"
  shows "consumeInput st envs1 s = consumeInput st envs2 s"
  using assms(2-4)
proof (induction envs1 envs2 arbitrary: s rule: list_all2_induct)
  case Nil
  then show ?case by simp
next
  case (Cons env1 envs1 env2 envs2)
  have "accumulateBlock st env1 (ht s) = Inr (accumulateSpec st env1 (ht s))"
    using Cons.prems eq by (intro accumulateBlock_spec) simp_all
  moreover have "accumulateBlock st env2 (ht s) = Inr (accumulateSpec st env2 (ht s))"
    using Cons.prems eq by (intro accumulateBlock_spec) simp_all
  moreover have "accumulateSpec st env1 (ht s) = accumulateSpec st env2 (ht s)"
    using Cons.hyps(1) by (rule agree_accumulateSpec)
  ultimately show ?case using Cons.IH Cons.prems by simp
qed

text \<open>
  Claim C9 (amended). Two input streams that differ only in the group-by and
  accumulator input values of rows whose selection bit is false give the same output,
  whichever path each batch takes, provided every block-level expression is the
  reduction of its row-level expression over exactly the selected rows. That the
  block-level expressions honor the bound bitset is not enough: tokenization does not
  read the bitset, so the group-by values of unselected rows decide which path a batch
  takes, and the two paths must agree.
\<close>

theorem unselected_rows_irrelevant:
  assumes "accumulatorsEquivalent st"
    and "list_all2 (agreeOnSelected st) envs1 envs2"
    and "\<forall>env \<in> set envs1. wellFormedBatch st env \<and> tokenizerValidOn st env"
    and "\<forall>env \<in> set envs2. wellFormedBatch st env \<and> tokenizerValidOn st env"
  shows "runStage st envs1 fuel = runStage st envs2 fuel"
  using agree_consumeInput [OF assms]
  by (simp add: runStage_def openStage_def)

theorem unselected_rows_irrelevant_witness:
  "runStage exampleStage
     [batch [True, False, False, False, False, False, True]
        [''A'', ''B'', ''C'', ''D'', ''E'', ''F'', ''A''] [1, 20, 30, 40, 50, 60, 7]] 5 =
   runStage exampleStage
     [batch [True, False, False, False, False, False, True]
        [''A'', ''A'', ''A'', ''A'', ''A'', ''A'', ''A''] [1, 2, 3, 4, 5, 6, 7]] 5 \<and>
   runStage exampleStage
     [batch [True, False, False, False, False, False, True]
        [''A'', ''A'', ''A'', ''A'', ''A'', ''A'', ''A''] [1, 2, 3, 4, 5, 6, 7]] 5 =
     Some (Inr [([StringBig ''A''], [NumberInt64 2, NumberInt64 8])]) \<and>
   batchPartitions exampleStage
     (batch [True, False, False, False, False, False, True]
        [''A'', ''B'', ''C'', ''D'', ''E'', ''F'', ''A''] [1, 20, 30, 40, 50, 60, 7]) = 6 \<and>
   batchPartitions exampleStage
     (batch [True, False, False, False, False, False, True]
        [''A'', ''A'', ''A'', ''A'', ''A'', ''A'', ''A''] [1, 2, 3, 4, 5, 6, 7]) = 1"
proof -
  let ?e1 = "batch [True, False, False, False, False, False, True]
        [''A'', ''B'', ''C'', ''D'', ''E'', ''F'', ''A''] [1, 20, 30, 40, 50, 60, 7]"
  let ?e2 = "batch [True, False, False, False, False, False, True]
        [''A'', ''A'', ''A'', ''A'', ''A'', ''A'', ''A''] [1, 2, 3, 4, 5, 6, 7]"
  have a: "list_all2 (agreeOnSelected exampleStage) [?e1] [?e2]"
    by (simp add: agreeOnSelected_def selectedRows_def rowKey_def rowData_def wf_defs)
  have w1: "\<forall>env \<in> set [?e1]. wellFormedBatch exampleStage env \<and> tokenizerValidOn exampleStage env"
    by (simp add: wf_defs tokenizerValidOn_def validTokenizedBlock_tokenizeBlock)
  have w2: "\<forall>env \<in> set [?e2]. wellFormedBatch exampleStage env \<and> tokenizerValidOn exampleStage env"
    by (simp add: wf_defs tokenizerValidOn_def validTokenizedBlock_tokenizeBlock)
  have e: "runStage exampleStage [?e1] 5 = runStage exampleStage [?e2] 5"
    by (rule unselected_rows_irrelevant [OF accumulatorsEquivalent_example a w1 w2])
  have r: "runStage exampleStage [?e2] 5 = Some (Inr [([StringBig ''A''], [NumberInt64 2, NumberInt64 8])])"
    by (simp add: eval_defs eval_nat_numeral)
  have p1: "batchPartitions exampleStage ?e1 = 6"
    by (simp add: batchPartitions_def numPartitions_def compoundKeyRows_def eval_defs)
  have p2: "batchPartitions exampleStage ?e2 = 1"
    by (simp add: batchPartitions_def numPartitions_def compoundKeyRows_def eval_defs)
  show ?thesis by (intro conjI) (rule e, rule r, rule p1, rule p2)
qed

theorem unselected_keys_untouched_witness:
  "accumulateBlock exampleStage (batch [False, False] [''A'', ''B''] [1, 2])
     [[StringBig ''C''] \<mapsto> [NumberInt64 1, NumberInt64 9]] =
     Inr [[StringBig ''C''] \<mapsto> [NumberInt64 1, NumberInt64 9]] \<and>
   selectedKeys exampleStage (batch [False, False] [''A'', ''B''] [1, 2]) = {} \<and>
   (\<exists>table'. accumulateBlock exampleStage (batch [False, True, False] [''A'', ''B'', ''A''] [1, 2, 3])
                Map.empty = Inr table' \<and> dom table' = {[StringBig ''B'']}) \<and>
   allFalse [Boolean False, Boolean False] = Inr True \<and>
   executeBlockLevelAccumulatorCode exampleStage [Boolean False, Boolean False]
     [[NumberInt64 1, NumberInt64 2]] [StringBig ''A''] Map.empty = Inr Map.empty"
proof -
  let ?e0 = "batch [False, False] [''A'', ''B''] [1, 2]"
  let ?e1 = "batch [False, True, False] [''A'', ''B'', ''A''] [1, 2, 3]"
  let ?t = "[[StringBig ''C''] \<mapsto> [NumberInt64 1, NumberInt64 9]]"
  have w0: "wellFormedBatch exampleStage ?e0" by (simp add: wf_defs)
  have w1: "wellFormedBatch exampleStage ?e1" by (simp add: wf_defs)
  have t0: "tokenizerValidOn exampleStage ?e0"
    by (simp add: wf_defs tokenizerValidOn_def validTokenizedBlock_tokenizeBlock)
  have t1: "tokenizerValidOn exampleStage ?e1"
    by (simp add: wf_defs tokenizerValidOn_def validTokenizedBlock_tokenizeBlock)
  have s0: "selectedKeys exampleStage ?e0 = {}"
    by (simp add: selectedKeys_def selectedRows_def wf_defs)
  have s1: "selectedKeys exampleStage ?e1 = {[StringBig ''B'']}"
    by (simp add: selectedKeys_def selectedRows_def rowKey_def wf_defs)
  have 1: "accumulateBlock exampleStage ?e0 ?t = Inr ?t"
    using unselected_keys_untouched [OF w0 t0, of ?t] s0 by auto
  have 2: "\<exists>table'. accumulateBlock exampleStage ?e1 Map.empty = Inr table' \<and> dom table' = {[StringBig ''B'']}"
    using unselected_keys_untouched [OF w1 t1, of Map.empty] s1 by auto
  have 3: "allFalse [Boolean False, Boolean False] = Inr True" by simp
  have 4: "executeBlockLevelAccumulatorCode exampleStage [Boolean False, Boolean False]
     [[NumberInt64 1, NumberInt64 2]] [StringBig ''A''] Map.empty = Inr Map.empty"
    using unselected_keys_untouched [OF w0 t0, of Map.empty] 3 by blast
  show ?thesis by (intro conjI) (rule 1, rule s0, rule 2, rule 3, rule 4)
qed

lemma getNextFromTable_rows:
  "getNextFromTable st n numRows s = (state, numRows', s') \<Longrightarrow> numRows = length (outRows s) \<Longrightarrow>
   numRows' = length (outRows s') \<and> numRows' \<le> numRows + n"
proof (induction n arbitrary: numRows s)
  case 0
  then show ?case by auto
next
  case (Suc n)
  let ?entries = "htIter st (ht s)"
  let ?it = "(case htIt s of
                  None \<Rightarrow> (if ?entries = [] then None else Some 0)
                | Some i \<Rightarrow> (if i + 1 < length ?entries then Some (i + 1) else None))"
  show ?case
  proof (cases "isDone s")
    case True
    then show ?thesis using Suc.prems by (auto simp: Let_def)
  next
    case False
    show ?thesis
    proof (cases ?it)
      case None
      then show ?thesis using Suc.prems False by (auto simp: Let_def)
    next
      case (Some i)
      let ?s2 = "s\<lparr>htIt := ?it, outRows := outRows s @ [?entries ! i]\<rparr>"
      have "getNextFromTable st n (numRows + 1) ?s2 = (state, numRows', s')"
        using Suc.prems(1) False Some by (simp add: Let_def)
      moreover have "numRows + 1 = length (outRows ?s2)" using Suc.prems(2) by simp
      ultimately have "numRows' = length (outRows s') \<and> numRows' \<le> numRows + 1 + n"
        by (rule Suc.IH)
      then show ?thesis by simp
    qed
  qed
qed

lemma getNextSpilledHelper_outRows:
  "getNextSpilledHelper st s = Inr (key, s') \<Longrightarrow> outRows s' = outRows s"
  by (auto simp: getNextSpilledHelper_def Let_def split: option.splits list.splits sum.splits prod.splits)

lemma getNextSpilledLoop_rows:
  "getNextSpilledLoop st n resultIdx s = Inr (resultIdx', s') \<Longrightarrow> resultIdx = length (outRows s) \<Longrightarrow>
   resultIdx' = length (outRows s') \<and> resultIdx' \<le> resultIdx + n"
proof (induction n arbitrary: resultIdx s)
  case 0
  then show ?case by auto
next
  case (Suc n)
  obtain key s1 where h: "getNextSpilledHelper st s = Inr (key, s1)"
    using Suc.prems(1) by (cases "getNextSpilledHelper st s") auto
  note o = getNextSpilledHelper_outRows [OF h]
  show ?case
  proof (cases key)
    case None
    then show ?thesis using Suc.prems h o by simp
  next
    case (Some nextKey)
    let ?s2 = "s1\<lparr>outRows := outRows s1 @ [(nextKey, rowAggRS s1)]\<rparr>"
    have "getNextSpilledLoop st n (resultIdx + 1) ?s2 = Inr (resultIdx', s')"
      using Suc.prems(1) h Some by (simp split: if_splits)
    moreover have "resultIdx + 1 = length (outRows ?s2)" using Suc.prems(2) o by simp
    ultimately have "resultIdx' = length (outRows s') \<and> resultIdx' \<le> resultIdx + 1 + n"
      by (rule Suc.IH)
    then show ?thesis by simp
  qed
qed

text \<open>
  Claim C7. Every block that \<open>getNext\<close> returns while draining, from the record store
  or from the live table, has at most \<open>kBlockOutSize\<close> rows, and the bitset returned
  with it is a new block of \<open>Boolean\<close> true values with one entry per row of the block.
\<close>

theorem output_block_capped:
  assumes "getNext st s = Inr (ADVANCED, s')"
  shows "length (outRows s') \<le> kBlockOutSize st \<and>
         blockBitsetOut s' = ValueBlock (replicate (length (outRows s')) (Boolean True))"
proof (cases "recordStore s")
  case None
  obtain state numRows s1 where g: "getNextFromTable st (kBlockOutSize st) 0 (s\<lparr>outRows := []\<rparr>) = (state, numRows, s1)"
    by (cases "getNextFromTable st (kBlockOutSize st) 0 (s\<lparr>outRows := []\<rparr>)") auto
  have r: "numRows = length (outRows s1) \<and> numRows \<le> 0 + kBlockOutSize st"
    by (rule getNextFromTable_rows [OF g]) simp
  have "s' = populateBitmapSlot numRows s1"
    using assms None g by (simp add: getNext_def Let_def)
  then show ?thesis using r by (simp add: populateBitmapSlot_def)
next
  case (Some recs)
  then have sp: "getNextSpilled st (s\<lparr>outRows := []\<rparr>) = Inr (ADVANCED, s')"
    using assms by (simp add: getNext_def Let_def)
  then obtain resultIdx s1 where g: "getNextSpilledLoop st (kBlockOutSize st) 0 (s\<lparr>outRows := []\<rparr>) = Inr (resultIdx, s1)"
    by (cases "getNextSpilledLoop st (kBlockOutSize st) 0 (s\<lparr>outRows := []\<rparr>)")
       (auto simp: getNextSpilled_def)
  have r: "resultIdx = length (outRows s1) \<and> resultIdx \<le> 0 + kBlockOutSize st"
    by (rule getNextSpilledLoop_rows [OF g]) simp
  have "s' = populateBitmapSlot resultIdx s1"
    using sp g by (simp add: getNextSpilled_def split: if_splits)
  then show ?thesis using r by (simp add: populateBitmapSlot_def)
qed

lemma processRow_Inr:
  assumes "length (mergingExprs st) = length (blockRowAggs st)"
    and "length row = length (blockRowAggs st)"
  shows "processRow st rs row = Inr (mergeStep st rs row)"
proof -
  have "mapE (\<lambda>idx. case readAt (mergingExprs st) idx of
                     Inl e \<Rightarrow> Inl e
                   | Inr mergingExpr \<Rightarrow> Inr (mergingExpr (rs ! idx) (row ! idx)))
             [0..<length (blockRowAggs st)]
        = Inr (map (\<lambda>idx. (mergingExprs st ! idx) (rs ! idx) (row ! idx)) [0..<length (blockRowAggs st)])"
    using assms(1) by (intro mapE_Inr) (simp add: readAt_def)
  then show ?thesis using assms(2) by (simp add: processRow_def mergeStep_def)
qed

lemma mergeSameKey_char:
  assumes "length (mergingExprs st) = length (blockRowAggs st)"
    and "\<forall>r \<in> set cursor. length (snd r) = length (blockRowAggs st)"
  shows "mergeSameKey st k rs cursor =
         Inr (k, foldl (mergeStep st) rs (map snd (takeWhile (\<lambda>r. fst r = k) cursor)),
              (case dropWhile (\<lambda>r. fst r = k) cursor of [] \<Rightarrow> None | r # _ \<Rightarrow> Some r),
              (case dropWhile (\<lambda>r. fst r = k) cursor of [] \<Rightarrow> [] | _ # rest \<Rightarrow> rest))"
  using assms(2)
proof (induction cursor arbitrary: rs)
  case Nil
  then show ?case by simp
next
  case (Cons r cursor)
  show ?case
  proof (cases "fst r = k")
    case True
    have "processRow st rs (snd r) = Inr (mergeStep st rs (snd r))"
      using Cons.prems assms(1) by (intro processRow_Inr) simp_all
    then show ?thesis using True Cons by simp
  next
    case False
    then show ?thesis by simp
  qed
qed

lemma stash_cursor_pending:
  "(case (case dw of [] \<Rightarrow> None | r # _ \<Rightarrow> Some r) of None \<Rightarrow> [] | Some stashed \<Rightarrow> [stashed]) @
   (case dw of [] \<Rightarrow> [] | _ # rest \<Rightarrow> rest) = dw"
  by (cases dw) simp_all

text \<open>
  Claim C6. One call of the spill-merge reader, on well-sized records: with nothing
  pending (no stash, cursor exhausted) it returns no group; otherwise it returns the
  key of the first pending record (the stashed one when present), the merge of that
  record's values with those of the maximal run of records with the same key that
  follow it, and it leaves the rest pending, the first record with a different key
  being stashed.
\<close>

theorem spill_merge_reader_step:
  assumes "recordsWellSized st (pendingRecords s)"
  shows "(pendingRecords s = [] \<longrightarrow>
            (\<exists>s'. getNextSpilledHelper st s = Inr (None, s') \<and> pendingRecords s' = [])) \<and>
         (\<forall>first rest. pendingRecords s = first # rest \<longrightarrow>
            (\<exists>s'. getNextSpilledHelper st s = Inr (Some (fst first), s') \<and>
                  rowAggRS s' =
                    mergePartials st (snd first # map snd (takeWhile (\<lambda>r. fst r = fst first) rest)) \<and>
                  pendingRecords s' = dropWhile (\<lambda>r. fst r = fst first) rest \<and>
                  stashedNextRow s' =
                    (case dropWhile (\<lambda>r. fst r = fst first) rest of
                       [] \<Rightarrow> None | r # _ \<Rightarrow> Some r)))"
proof (intro conjI allI impI)
  assume "pendingRecords s = []"
  then have "stashedNextRow s = None" "rsCursor s = []"
    by (auto simp: pendingRecords_def split: option.splits)
  then show "\<exists>s'. getNextSpilledHelper st s = Inr (None, s') \<and> pendingRecords s' = []"
    by (simp add: getNextSpilledHelper_def pendingRecords_def)
next
  fix first rest
  assume p: "pendingRecords s = first # rest"
  have m: "length (mergingExprs st) = length (blockRowAggs st)"
    and f: "length (snd first) = length (blockRowAggs st)"
    and r: "\<forall>r \<in> set rest. length (snd r) = length (blockRowAggs st)"
    using assms p by (simp_all add: recordsWellSized_def)
  let ?rs0 = "replicate (length (blockRowAggs st)) Nothing"
  let ?dw = "dropWhile (\<lambda>r. fst r = fst first) rest"
  let ?s' = "s\<lparr>rowAggRS := foldl (mergeStep st) (mergeStep st ?rs0 (snd first))
                              (map snd (takeWhile (\<lambda>r. fst r = fst first) rest)),
               stashedNextRow := (case ?dw of [] \<Rightarrow> None | r # _ \<Rightarrow> Some r),
               rsCursor := (case ?dw of [] \<Rightarrow> [] | _ # rest' \<Rightarrow> rest')\<rparr>"
  have start: "(case stashedNextRow s of
                     Some stashed \<Rightarrow> Some (stashed, rsCursor s)
                   | None \<Rightarrow>
                       (case rsCursor s of
                          [] \<Rightarrow> None
                        | nextRecord # cursor \<Rightarrow> Some (nextRecord, cursor))) = Some (first, rest)"
    using p by (auto simp: pendingRecords_def split: option.splits list.splits)
  have "getNextSpilledHelper st s = Inr (Some (fst first), ?s')"
    unfolding getNextSpilledHelper_def Let_def start
    using processRow_Inr [OF m f, of ?rs0] mergeSameKey_char [OF m r]
    by simp
  moreover have "rowAggRS ?s' = mergePartials st (snd first # map snd (takeWhile (\<lambda>r. fst r = fst first) rest))"
    by (simp add: mergePartials_def)
  moreover have "pendingRecords ?s' = ?dw"
  proof -
    have 1: "stashedNextRow ?s' = (case ?dw of [] \<Rightarrow> None | r # _ \<Rightarrow> Some r)" by simp
    have 2: "rsCursor ?s' = (case ?dw of [] \<Rightarrow> [] | _ # rest' \<Rightarrow> rest')" by simp
    show ?thesis unfolding pendingRecords_def 1 2 by (rule stash_cursor_pending)
  qed
  moreover have "stashedNextRow ?s' = (case ?dw of [] \<Rightarrow> None | r # _ \<Rightarrow> Some r)"
    by simp
  ultimately show "\<exists>s'. getNextSpilledHelper st s = Inr (Some (fst first), s') \<and>
                  rowAggRS s' =
                    mergePartials st (snd first # map snd (takeWhile (\<lambda>r. fst r = fst first) rest)) \<and>
                  pendingRecords s' = dropWhile (\<lambda>r. fst r = fst first) rest \<and>
                  stashedNextRow s' =
                    (case dropWhile (\<lambda>r. fst r = fst first) rest of
                       [] \<Rightarrow> None | r # _ \<Rightarrow> Some r)"
    by blast
qed

theorem spill_merge_reader_step_witness:
  "recordsWellSized exampleStage (pendingRecords spilledState) \<and>
   (\<exists>s'. getNextSpilledHelper exampleStage spilledState = Inr (Some [StringBig ''K''], s') \<and>
         rowAggRS s' = [NumberInt64 6, NumberInt64 60] \<and>
         pendingRecords s' =
           [([StringBig ''L''], [NumberInt64 1, NumberInt64 5]),
            ([StringBig ''L''], [NumberInt64 1, NumberInt64 6])] \<and>
         stashedNextRow s' = Some ([StringBig ''L''], [NumberInt64 1, NumberInt64 5])) \<and>
   drain (exampleStage\<lparr>kBlockOutSize := 128\<rparr>) 2 spilledState =
     Some (Inr [([StringBig ''K''], [NumberInt64 6, NumberInt64 60]),
                ([StringBig ''L''], [NumberInt64 2, NumberInt64 11])])"
proof -
  have p: "pendingRecords spilledState = exampleLog"
    by (simp add: pendingRecords_def spilledState_def initialState_def)
  have w: "recordsWellSized exampleStage (pendingRecords spilledState)"
    by (simp add: p recordsWellSized_def exampleStage_def exampleLog_def)
  have c: "pendingRecords spilledState =
      ([StringBig ''K''], [NumberInt64 1, NumberInt64 10]) #
      [([StringBig ''K''], [NumberInt64 2, NumberInt64 20]),
       ([StringBig ''K''], [NumberInt64 3, NumberInt64 30]),
       ([StringBig ''L''], [NumberInt64 1, NumberInt64 5]),
       ([StringBig ''L''], [NumberInt64 1, NumberInt64 6])]"
    by (simp add: p exampleLog_def)
  have 1: "\<exists>s'. getNextSpilledHelper exampleStage spilledState = Inr (Some [StringBig ''K''], s') \<and>
         rowAggRS s' = [NumberInt64 6, NumberInt64 60] \<and>
         pendingRecords s' =
           [([StringBig ''L''], [NumberInt64 1, NumberInt64 5]),
            ([StringBig ''L''], [NumberInt64 1, NumberInt64 6])] \<and>
         stashedNextRow s' = Some ([StringBig ''L''], [NumberInt64 1, NumberInt64 5])"
    using spill_merge_reader_step [OF w, THEN conjunct2, rule_format, OF c]
    by (simp add: mergePartials_def mergeStep_def exampleStage_def addMerge_def numberOf_def)
  have 2: "drain (exampleStage\<lparr>kBlockOutSize := 128\<rparr>) 2 spilledState =
     Some (Inr [([StringBig ''K''], [NumberInt64 6, NumberInt64 60]),
                ([StringBig ''L''], [NumberInt64 2, NumberInt64 11])])"
    by (simp add: spilledState_def exampleLog_def eval_defs eval_nat_numeral)
  show ?thesis by (intro conjI) (rule w, rule 1, rule 2)
qed

theorem output_block_capped_witness:
  "getNext exampleStage tableState =
     Inr (ADVANCED,
          tableState\<lparr>htIt := Some 1,
                     outRows := [([StringBig ''A''], [NumberInt64 1, NumberInt64 10]),
                                 ([StringBig ''B''], [NumberInt64 2, NumberInt64 20])],
                     blockBitsetOut := ValueBlock [Boolean True, Boolean True]\<rparr>) \<and>
   kBlockOutSize exampleStage = 2 \<and>
   (case getNext exampleStage spilledState of
      Inr (ADVANCED, s') \<Rightarrow>
        outRows s' = [([StringBig ''K''], [NumberInt64 6, NumberInt64 60]),
                      ([StringBig ''L''], [NumberInt64 2, NumberInt64 11])] \<and>
        blockBitsetOut s' = ValueBlock [Boolean True, Boolean True]
    | _ \<Rightarrow> False)"
proof -
  let ?s' = "tableState\<lparr>htIt := Some 1,
                     outRows := [([StringBig ''A''], [NumberInt64 1, NumberInt64 10]),
                                 ([StringBig ''B''], [NumberInt64 2, NumberInt64 20])],
                     blockBitsetOut := ValueBlock [Boolean True, Boolean True]\<rparr>"
  have 1: "getNext exampleStage tableState = Inr (ADVANCED, ?s')"
    by (simp add: tableState_def eval_defs eval_nat_numeral)
  have 2: "kBlockOutSize exampleStage = 2" by (simp add: exampleStage_def)
  have 3: "(case getNext exampleStage spilledState of
      Inr (ADVANCED, s') \<Rightarrow>
        outRows s' = [([StringBig ''K''], [NumberInt64 6, NumberInt64 60]),
                      ([StringBig ''L''], [NumberInt64 2, NumberInt64 11])] \<and>
        blockBitsetOut s' = ValueBlock [Boolean True, Boolean True]
    | _ \<Rightarrow> False)"
    by (simp add: spilledState_def exampleLog_def eval_defs eval_nat_numeral)
  have "length (outRows ?s') \<le> kBlockOutSize exampleStage \<and>
        blockBitsetOut ?s' = ValueBlock (replicate (length (outRows ?s')) (Boolean True))"
    by (rule output_block_capped [OF 1])
  then show ?thesis using 1 2 3 by blast
qed

lemma gb_length_mismatch_asserts:
  assumes bm: "env (blockBitsetInSlotId st) = ValueBlock bm"
    and gb: "gb \<in> set (gbBlocksOf st env (length bm))" "length gb \<noteq> length bm"
    and tv: "tokenizerValidOn st env"
  shows "accumulateBlock st env table = Inl (TAssert 8608600)"
proof -
  have v: "\<forall>g \<in> set (gbBlocksOf st env (length bm)). length (idxs (tokenize st g)) = length g"
    using tv bm by (auto simp: tokenizerValidOn_def validTokenizedBlock_length)
  have "tokenizeGbs (tokenize st) n gbs = Inl (TAssert 8608600)"
    if "gb \<in> set gbs" "\<forall>g \<in> set gbs. length (idxs (tokenize st g)) = length g" "length gb \<noteq> n" for gbs n
    using that by (induction gbs) auto
  then have "tokenizeGbs (tokenize st) (length bm) (gbBlocksOf st env (length bm)) = Inl (TAssert 8608600)"
    using gb v by blast
  then show ?thesis using bm by (simp add: accumulateBlock_def tryTokenizeGbs_def Let_def)
qed

text \<open>
  Claim C8. A batch whose accumulator input block is longer than the bitset and the
  group-by block is processed on the row-wise path without any fatal outcome: six rows
  with six distinct keys (one more than the ceiling of the example stage) and a data
  block of seven values give six groups, and the seventh value is ignored. A group-by
  block of the wrong length does trigger tassert 8608600.
\<close>

theorem data_length_mismatch_tolerated:
  "(case accumulateBlock exampleStage
           (batch [True, True, True, True, True, True] [''A'', ''B'', ''C'', ''D'', ''E'', ''F'']
              [1, 2, 3, 4, 5, 6, 7]) Map.empty of
      Inl e \<Rightarrow> Inl e
    | Inr table \<Rightarrow>
        Inr (map table [[StringBig ''A''], [StringBig ''B''], [StringBig ''C''],
                        [StringBig ''D''], [StringBig ''E''], [StringBig ''F'']])) =
   Inr [Some [NumberInt64 1, NumberInt64 1], Some [NumberInt64 1, NumberInt64 2],
        Some [NumberInt64 1, NumberInt64 3], Some [NumberInt64 1, NumberInt64 4],
        Some [NumberInt64 1, NumberInt64 5], Some [NumberInt64 1, NumberInt64 6]] \<and>
   batchPartitions exampleStage
     (batch [True, True, True, True, True, True] [''A'', ''B'', ''C'', ''D'', ''E'', ''F'']
        [1, 2, 3, 4, 5, 6, 7]) = 6 \<and>
   kMaxNumPartitionsForTokenizedPath exampleStage = 5 \<and>
   accumulateBlock exampleStage
     (batch [True, True, True, True, True, True] [''A'', ''B'', ''C'', ''D'', ''E'', ''F'', ''G'']
        [1, 2, 3, 4, 5, 6]) Map.empty = Inl (TAssert 8608600)"
proof (intro conjI)
  show "(case accumulateBlock exampleStage
           (batch [True, True, True, True, True, True] [''A'', ''B'', ''C'', ''D'', ''E'', ''F'']
              [1, 2, 3, 4, 5, 6, 7]) Map.empty of
      Inl e \<Rightarrow> Inl e
    | Inr table \<Rightarrow>
        Inr (map table [[StringBig ''A''], [StringBig ''B''], [StringBig ''C''],
                        [StringBig ''D''], [StringBig ''E''], [StringBig ''F'']])) =
   Inr [Some [NumberInt64 1, NumberInt64 1], Some [NumberInt64 1, NumberInt64 2],
        Some [NumberInt64 1, NumberInt64 3], Some [NumberInt64 1, NumberInt64 4],
        Some [NumberInt64 1, NumberInt64 5], Some [NumberInt64 1, NumberInt64 6]]"
    by (simp add: eval_defs eval_nat_numeral)
  show "batchPartitions exampleStage
     (batch [True, True, True, True, True, True] [''A'', ''B'', ''C'', ''D'', ''E'', ''F'']
        [1, 2, 3, 4, 5, 6, 7]) = 6"
    by (simp add: batchPartitions_def numPartitions_def compoundKeyRows_def eval_defs)
  show "kMaxNumPartitionsForTokenizedPath exampleStage = 5" by (simp add: exampleStage_def)
  show "accumulateBlock exampleStage
     (batch [True, True, True, True, True, True] [''A'', ''B'', ''C'', ''D'', ''E'', ''F'', ''G'']
        [1, 2, 3, 4, 5, 6]) Map.empty = Inl (TAssert 8608600)"
    by (simp add: accumulateBlock_def gbBlocksOf_def dataBlocksOf_def slotBlock_def tryTokenizeGbs_def
        exampleStage_def batch_def tokenizeBlock_def Let_def)
qed

lemma accumulateBlock_updateTable:
  assumes wf: "wellFormedBatch st env" and tv: "tokenizerValidOn st env"
  shows "accumulateBlock st env table = Inr (updateTable st env table)"
proof -
  obtain bm where bm: "env (blockBitsetInSlotId st) = ValueBlock bm"
    using wf by (rule wellFormedBatch_bitmap)
  note f = batch_facts [OF wf tv bm]
  let ?gbs = "gbBlocksOf st env (length bm)"
  let ?data = "dataBlocksOf st env (length bm)"
  note sk = selectedKeys_groupRows [where st = st and env = env and bm = bm, OF bm]
  have bp: "batchPartitions st env = numPartitions (length bm) (map (tokenize st) ?gbs)"
    by (simp add: batchPartitions_def bm)
  show ?thesis
  proof (cases "batchPartitions st env \<le> kMaxNumPartitionsForTokenizedPath st")
    case True
    then have le: "numPartitions (length bm) (map (tokenize st) ?gbs) \<le> kMaxNumPartitionsForTokenizedPath st"
      by (simp add: bp)
    obtain tk where tk: "tokenizedFor ?gbs (length bm) tk"
      "accumulateBlock st env table = runAccumulatorsTokenized st tk bm ?data table"
      using accumulateBlock_tokenized [OF wf tv bm le, of table] by blast
    have "accumulateBlock st env table =
          Inr (\<lambda>key. if groupRows bm ?gbs key \<noteq> []
                     then Some (runBlockAggs st (partitionBitset bm ?gbs key) ?data (lookupOrInit st table key))
                     else table key)"
      using tk(2) runAccumulatorsTokenized_char [OF tk(1) f(1), of st ?data table] by simp
    moreover have "(\<lambda>key. if groupRows bm ?gbs key \<noteq> []
                     then Some (runBlockAggs st (partitionBitset bm ?gbs key) ?data (lookupOrInit st table key))
                     else table key) = updateTable st env table"
      using True by (intro ext) (simp add: updateTable_def blockUpdate_def bm sk)
    ultimately show ?thesis by simp
  next
    case False
    then have gt: "kMaxNumPartitionsForTokenizedPath st < numPartitions (length bm) (map (tokenize st) ?gbs)"
      by (simp add: bp)
    have "accumulateBlock st env table = runAccumulatorsElementWise st bm ?gbs ?data table"
      using accumulateBlock_fallback [OF wf tv bm gt, of table] by simp
    then have "accumulateBlock st env table = Inr (groupBySpec st bm ?gbs ?data table)"
      using runAccumulatorsElementWise_spec [OF f(1) f(3), of st table] by simp
    moreover have "groupBySpec st bm ?gbs ?data table = updateTable st env table"
    proof (rule ext)
      fix key show "groupBySpec st bm ?gbs ?data table key = updateTable st env table key"
        using False by (cases "groupRows bm ?gbs key") (simp_all add: groupBySpec_def updateTable_def blockUpdate_def bm sk)
    qed
    ultimately show ?thesis by simp
  qed
qed




































lemma neverSpilling_fields [simp]:
  "groupSlots (neverSpilling st) = groupSlots st"
  "blockBitsetInSlotId (neverSpilling st) = blockBitsetInSlotId st"
  "blockDataInSlotIds (neverSpilling st) = blockDataInSlotIds st"
  "blockRowAggs (neverSpilling st) = blockRowAggs st"
  "mergingExprs (neverSpilling st) = mergingExprs st"
  "forceIncreasedSpilling (neverSpilling st) = False"
  "kMaxNumPartitionsForTokenizedPath (neverSpilling st) = kMaxNumPartitionsForTokenizedPath st"
  "kBlockOutSize (neverSpilling st) = kBlockOutSize st"
  "tokenize (neverSpilling st) = tokenize st"
  "exceedsMemoryBudget (neverSpilling st) table = False"
  "htIter (neverSpilling st) = htIter st"
  by (simp_all add: neverSpilling_def)

lemma neverSpilling_blocks [simp]:
  "gbBlocksOf (neverSpilling st) = gbBlocksOf st"
  "dataBlocksOf (neverSpilling st) = dataBlocksOf st"
  by (intro ext, simp add: gbBlocksOf_def dataBlocksOf_def)+

lemma neverSpilling_wellFormedBatch [simp]:
  "wellFormedBatch (neverSpilling st) env = wellFormedBatch st env"
  by (simp add: wellFormedBatch_def cong: SlotVal.case_cong)

lemma neverSpilling_tokenizerValidOn [simp]:
  "tokenizerValidOn (neverSpilling st) env = tokenizerValidOn st env"
  by (simp add: tokenizerValidOn_def cong: SlotVal.case_cong)

lemma neverSpilling_selectedKeys [simp]:
  "selectedKeys (neverSpilling st) env = selectedKeys st env"
  by (simp add: selectedKeys_def cong: SlotVal.case_cong)

lemma neverSpilling_runBlockAggs [simp]: "runBlockAggs (neverSpilling st) = runBlockAggs st"
  by (intro ext) (simp add: runBlockAggs_def)

lemma neverSpilling_foldRows [simp]: "foldRows (neverSpilling st) = foldRows st"
  by (intro ext) (simp add: foldRows_def runRowAggs_def)

lemma neverSpilling_lookupOrInit [simp]: "lookupOrInit (neverSpilling st) = lookupOrInit st"
  by (intro ext) (simp add: lookupOrInit_def split: option.splits)

lemma neverSpilling_batchPartitions [simp]:
  "batchPartitions (neverSpilling st) env = batchPartitions st env"
  by (simp add: batchPartitions_def cong: SlotVal.case_cong)

lemma neverSpilling_blockUpdate [simp]:
  "blockUpdate (neverSpilling st) env key row = blockUpdate st env key row"
proof (cases "env (blockBitsetInSlotId st)")
  case (Scalar v)
  then show ?thesis by (simp add: blockUpdate_def)
next
  case (ValueBlock bm)
  then show ?thesis by (simp add: blockUpdate_def)
qed

lemma neverSpilling_updateTable [simp]:
  "updateTable (neverSpilling st) env table = updateTable st env table"
  by (intro ext) (simp add: updateTable_def)

lemma neverSpilling_accumulateAll [simp]:
  "accumulateAll (neverSpilling st) envs table = accumulateAll st envs table"
  by (simp add: accumulateAll_def)

lemma consumeInput_recordStore:
  "consumeInput st envs s = Inr s1 \<Longrightarrow>
   (recordStore s1 \<noteq> None) = (recordStore s \<noteq> None \<or> 0 < spillsDuring st envs s)"
proof (induction envs arbitrary: s)
  case Nil
  then show ?case by auto
next
  case (Cons env envs)
  obtain table where a: "accumulateBlock st env (ht s) = Inr table"
    using Cons.prems by (cases "accumulateBlock st env (ht s)") simp_all
  have sp: "recordStore (spill st (s\<lparr>ht := table\<rparr>)) \<noteq> None" by (simp add: spill_def)
  show ?case
  proof (cases "table \<noteq> Map.empty \<and> (forceIncreasedSpilling st \<or> exceedsMemoryBudget st table)")
    case True
    have "(if forceIncreasedSpilling st then spill st (s\<lparr>ht := table\<rparr>)
           else checkMemoryUsageAndSpillIfNecessary st (s\<lparr>ht := table\<rparr>)) =
          spill st (s\<lparr>ht := table\<rparr>)"
      using True by (auto simp: checkMemoryUsageAndSpillIfNecessary_def)
    then have "consumeInput st (env # envs) s = consumeInput st envs (spill st (s\<lparr>ht := table\<rparr>))"
      using a True by simp
    then have c: "consumeInput st envs (spill st (s\<lparr>ht := table\<rparr>)) = Inr s1"
      using Cons.prems by simp
    have n: "0 < spillsDuring st (env # envs) s" using a True by auto
    show ?thesis using Cons.IH [OF c] sp n by blast
  next
    case False
    have "(if table \<noteq> Map.empty then
             (if forceIncreasedSpilling st then spill st (s\<lparr>ht := table\<rparr>)
              else checkMemoryUsageAndSpillIfNecessary st (s\<lparr>ht := table\<rparr>))
           else s\<lparr>ht := table\<rparr>) = s\<lparr>ht := table\<rparr>"
      using False by (auto simp: checkMemoryUsageAndSpillIfNecessary_def)
    then have "consumeInput st (env # envs) s = consumeInput st envs (s\<lparr>ht := table\<rparr>)"
      using a by simp
    then have c: "consumeInput st envs (s\<lparr>ht := table\<rparr>) = Inr s1"
      using Cons.prems by simp
    have n: "spillsDuring st (env # envs) s = spillsDuring st envs (s\<lparr>ht := table\<rparr>)"
      using a False by auto
    show ?thesis using Cons.IH [OF c] n by simp
  qed
qed

lemma leftoverRecords_entries:
  assumes "htIterEnumerates st K" and "dom (ht s) \<subseteq> K"
  shows "set (leftoverRecords st s) = {(k, v). ht s k = Some v}"
    and "distinct (map fst (leftoverRecords st s))"
proof -
  have e: "set (htIter st (ht s)) = {(k, v). ht s k = Some v}"
    and d: "distinct (map fst (htIter st (ht s)))"
    using assms unfolding htIterEnumerates_def by blast+
  show "set (leftoverRecords st s) = {(k, v). ht s k = Some v}"
    using e by (simp add: leftoverRecords_def)
  show "distinct (map fst (leftoverRecords st s))"
    using d by (simp add: leftoverRecords_def)
qed

lemma map_fst_iterKeys: "map fst (iterKeys ks table) = filter (\<lambda>k. table k \<noteq> None) ks"
  by (induction ks) (auto simp: iterKeys_def List.map_filter_def)

lemma set_iterKeys: "set (iterKeys ks table) = {(k, v). k \<in> set ks \<and> table k = Some v}"
  by (induction ks) (auto simp: iterKeys_def List.map_filter_def)

lemma htIterEnumerates_iterKeys:
  assumes "htIter st = iterKeys ks" and "distinct ks" and "K \<subseteq> set ks"
  shows "htIterEnumerates st K"
  unfolding htIterEnumerates_def
proof (intro allI impI conjI)
  fix table :: TableType
  assume d: "dom table \<subseteq> K"
  have "\<And>k v. table k = Some v \<Longrightarrow> k \<in> set ks" using d assms(3) by blast
  then show "set (htIter st table) = {(k, v). table k = Some v}"
    unfolding assms(1) set_iterKeys by blast
  show "distinct (map fst (htIter st table))"
    unfolding assms(1) map_fst_iterKeys using assms(2) by simp
qed

lemma dom_updateTable: "dom (updateTable st env table) = dom table \<union> selectedKeys st env"
  by (auto simp: updateTable_def dom_def split: if_splits)

lemma htIter_keys:
  assumes "htIterEnumerates st K" and "dom table \<subseteq> K"
  shows "fst ` set (htIter st table) = dom table"
proof -
  have "set (htIter st table) = {(k, v). table k = Some v}"
    using assms unfolding htIterEnumerates_def by blast
  then show ?thesis by force
qed

lemma consumeInput_keys:
  assumes en: "htIterEnumerates st K"
  shows "\<forall>env \<in> set envs. wellFormedBatch st env \<and> tokenizerValidOn st env \<Longrightarrow>
         dom (ht s) \<union> streamKeys st envs \<subseteq> K \<Longrightarrow>
         \<exists>s1. consumeInput st envs s = Inr s1 \<and>
              fst ` set (logOf (recordStore s1)) \<union> dom (ht s1) =
                fst ` set (logOf (recordStore s)) \<union> dom (ht s) \<union> streamKeys st envs \<and>
              dom (ht s1) \<subseteq> K"
proof (induction envs arbitrary: s)
  case Nil
  then show ?case by (simp add: streamKeys_def)
next
  case (Cons env envs)
  let ?T = "updateTable st env (ht s)"
  let ?next = "(if ?T \<noteq> Map.empty then
                 (if forceIncreasedSpilling st then spill st (s\<lparr>ht := ?T\<rparr>)
                  else checkMemoryUsageAndSpillIfNecessary st (s\<lparr>ht := ?T\<rparr>))
               else s\<lparr>ht := ?T\<rparr>)"
  have wf: "wellFormedBatch st env" "tokenizerValidOn st env"
    and wfs: "\<forall>env \<in> set envs. wellFormedBatch st env \<and> tokenizerValidOn st env"
    using Cons.prems(1) by simp_all
  have a: "accumulateBlock st env (ht s) = Inr ?T"
    by (rule accumulateBlock_updateTable [OF wf])
  have sk: "streamKeys st (env # envs) = selectedKeys st env \<union> streamKeys st envs"
    by (simp add: streamKeys_def)
  have dT: "dom ?T = dom (ht s) \<union> selectedKeys st env" by (rule dom_updateTable)
  have dK: "dom ?T \<subseteq> K" using Cons.prems(2) unfolding dT sk by blast
  have c: "consumeInput st (env # envs) s = consumeInput st envs ?next" using a by simp
  have nx: "?next = spill st (s\<lparr>ht := ?T\<rparr>) \<or> ?next = s\<lparr>ht := ?T\<rparr>"
    by (auto simp: checkMemoryUsageAndSpillIfNecessary_def)
  have sp: "fst ` set (logOf (recordStore (spill st (s\<lparr>ht := ?T\<rparr>)))) =
            fst ` set (logOf (recordStore s)) \<union> dom ?T"
    using htIter_keys [OF en dK] by (simp add: spill_def logOf_def image_Un)
  have kn: "fst ` set (logOf (recordStore ?next)) \<union> dom (ht ?next) =
            fst ` set (logOf (recordStore s)) \<union> dom ?T"
    using nx
  proof
    assume n: "?next = spill st (s\<lparr>ht := ?T\<rparr>)"
    have "ht (spill st (s\<lparr>ht := ?T\<rparr>)) = Map.empty" by (simp add: spill_def)
    then show ?thesis unfolding n sp by simp
  next
    assume n: "?next = s\<lparr>ht := ?T\<rparr>"
    show ?thesis unfolding n by simp
  qed
  have dn: "dom (ht ?next) \<subseteq> K"
    using nx
  proof
    assume n: "?next = spill st (s\<lparr>ht := ?T\<rparr>)"
    show ?thesis unfolding n by (simp add: spill_def)
  next
    assume n: "?next = s\<lparr>ht := ?T\<rparr>"
    show ?thesis unfolding n using dK by simp
  qed
  have pre: "dom (ht ?next) \<union> streamKeys st envs \<subseteq> K"
    using dn Cons.prems(2) unfolding sk by blast
  obtain s1 where s1: "consumeInput st envs ?next = Inr s1"
    and k1: "fst ` set (logOf (recordStore s1)) \<union> dom (ht s1) =
             fst ` set (logOf (recordStore ?next)) \<union> dom (ht ?next) \<union> streamKeys st envs"
    and d1: "dom (ht s1) \<subseteq> K"
    using Cons.IH [OF wfs pre] by blast
  have "fst ` set (logOf (recordStore s1)) \<union> dom (ht s1) =
        fst ` set (logOf (recordStore s)) \<union> dom (ht s) \<union> streamKeys st (env # envs)"
    unfolding k1 kn dT sk by blast
  then show ?case using s1 d1 unfolding c by blast
qed

text \<open>
  Claim C5. Let \<open>open\<close> start without a record store (as after construction or \<open>close\<close>)
  on well-formed batches, and let at least one spill occur while the input is
  consumed. Then \<open>open\<close> ends with the table empty and with every
  (key, accumulator state) pair the table still held at the end of the input appended
  to the log, each once, behind the records of the earlier spills, whether or not the
  memory budget is exceeded; the keys with a record in the log are exactly the keys of
  the selected rows of the input, and the cursor is positioned at the beginning of the
  whole log. So when draining begins the state of every group is in the log and none
  is in the table. The iteration of the hash table is assumed to visit every entry of
  a table exactly once.
\<close>

theorem final_spill:
  assumes "\<forall>env \<in> set envs. wellFormedBatch st env \<and> tokenizerValidOn st env"
    and "htIterEnumerates st (streamKeys st envs)"
    and "recordStore s = None"
    and "0 < spillsDuring st envs (s\<lparr>ht := Map.empty, isDone := (if reOpen then False else isDone s)\<rparr>)"
  shows "\<exists>s1 s' earlier.
           consumeInput st envs (s\<lparr>ht := Map.empty, isDone := (if reOpen then False else isDone s)\<rparr>) = Inr s1 \<and>
           openStage st reOpen envs s = Inr s' \<and>
           recordStore s1 = Some earlier \<and>
           ht s' = Map.empty \<and>
           recordStore s' = Some (earlier @ leftoverRecords st s1) \<and>
           rsCursor s' = earlier @ leftoverRecords st s1 \<and>
           set (leftoverRecords st s1) = {(k, v). ht s1 k = Some v} \<and>
           distinct (map fst (leftoverRecords st s1)) \<and>
           fst ` set (earlier @ leftoverRecords st s1) = streamKeys st envs"
proof -
  let ?s0 = "s\<lparr>ht := Map.empty, isDone := (if reOpen then False else isDone s)\<rparr>"
  have pre: "dom (ht ?s0) \<union> streamKeys st envs \<subseteq> streamKeys st envs" by simp
  obtain s1 where c: "consumeInput st envs ?s0 = Inr s1"
    and k: "fst ` set (logOf (recordStore s1)) \<union> dom (ht s1) =
            fst ` set (logOf (recordStore ?s0)) \<union> dom (ht ?s0) \<union> streamKeys st envs"
    and d: "dom (ht s1) \<subseteq> streamKeys st envs"
    using consumeInput_keys [OF assms(2) assms(1) pre] by blast
  have "recordStore s1 \<noteq> None"
    using consumeInput_recordStore [OF c] assms(4) by blast
  then obtain earlier where e: "recordStore s1 = Some earlier" by blast
  have o: "openStage st reOpen envs s = Inr (finishOpen st s1)"
    using c by (simp add: openStage_def)
  have 1: "ht (finishOpen st s1) = Map.empty"
    using e by (simp add: finishOpen_def spill_def Let_def)
  have 2: "recordStore (finishOpen st s1) = Some (earlier @ leftoverRecords st s1)"
    using e by (simp add: finishOpen_def spill_def Let_def leftoverRecords_def)
  have 3: "rsCursor (finishOpen st s1) = earlier @ leftoverRecords st s1"
    using e by (simp add: finishOpen_def spill_def Let_def leftoverRecords_def)
  note 4 = leftoverRecords_entries [OF assms(2) d]
  have l: "fst ` set (leftoverRecords st s1) = dom (ht s1)" unfolding 4(1) by force
  have "fst ` set earlier \<union> dom (ht s1) = streamKeys st envs"
    using k e assms(3) by (simp add: logOf_def)
  then have 5: "fst ` set (earlier @ leftoverRecords st s1) = streamKeys st envs"
    using l by (simp add: image_Un)
  show ?thesis using c o e 1 2 3 4 5 by blast
qed

lemma spillExample_consumeInput:
  "consumeInput
     (exampleStage\<lparr>exceedsMemoryBudget :=
        (\<lambda>table. table [StringBig ''A''] \<noteq> None \<and> table [StringBig ''B''] \<noteq> None)\<rparr>)
     exampleInput initialState =
   Inr (initialState\<lparr>ht := [[StringBig ''B''] \<mapsto> [NumberInt64 2, NumberInt64 11]],
          recordStore := Some [([StringBig ''A''], [NumberInt64 3, NumberInt64 7]),
                               ([StringBig ''B''], [NumberInt64 1, NumberInt64 3])]\<rparr>)"
  by (simp add: eval_defs eval_nat_numeral)

lemma spillExample_spillsDuring:
  "spillsDuring
     (exampleStage\<lparr>exceedsMemoryBudget :=
        (\<lambda>table. table [StringBig ''A''] \<noteq> None \<and> table [StringBig ''B''] \<noteq> None)\<rparr>)
     exampleInput initialState = 1"
  by (simp add: eval_defs eval_nat_numeral)

theorem final_spill_witness:
  "spillsDuring
     (exampleStage\<lparr>exceedsMemoryBudget :=
        (\<lambda>table. table [StringBig ''A''] \<noteq> None \<and> table [StringBig ''B''] \<noteq> None)\<rparr>)
     exampleInput initialState = 1 \<and>
   consumeInput
     (exampleStage\<lparr>exceedsMemoryBudget :=
        (\<lambda>table. table [StringBig ''A''] \<noteq> None \<and> table [StringBig ''B''] \<noteq> None)\<rparr>)
     exampleInput initialState =
   Inr (initialState\<lparr>ht := [[StringBig ''B''] \<mapsto> [NumberInt64 2, NumberInt64 11]],
          recordStore := Some [([StringBig ''A''], [NumberInt64 3, NumberInt64 7]),
                               ([StringBig ''B''], [NumberInt64 1, NumberInt64 3])]\<rparr>) \<and>
   \<not> exceedsMemoryBudget
       (exampleStage\<lparr>exceedsMemoryBudget :=
          (\<lambda>table. table [StringBig ''A''] \<noteq> None \<and> table [StringBig ''B''] \<noteq> None)\<rparr>)
       [[StringBig ''B''] \<mapsto> [NumberInt64 2, NumberInt64 11]] \<and>
   (\<exists>s'. openStage
           (exampleStage\<lparr>exceedsMemoryBudget :=
              (\<lambda>table. table [StringBig ''A''] \<noteq> None \<and> table [StringBig ''B''] \<noteq> None)\<rparr>)
           False exampleInput initialState = Inr s' \<and>
         ht s' = Map.empty \<and>
         recordStore s' = Some [([StringBig ''A''], [NumberInt64 3, NumberInt64 7]),
                                ([StringBig ''B''], [NumberInt64 1, NumberInt64 3]),
                                ([StringBig ''B''], [NumberInt64 2, NumberInt64 11])] \<and>
         rsCursor s' = [([StringBig ''A''], [NumberInt64 3, NumberInt64 7]),
                        ([StringBig ''B''], [NumberInt64 1, NumberInt64 3]),
                        ([StringBig ''B''], [NumberInt64 2, NumberInt64 11])])"
proof -
  let ?st = "exampleStage\<lparr>exceedsMemoryBudget :=
        (\<lambda>table. table [StringBig ''A''] \<noteq> None \<and> table [StringBig ''B''] \<noteq> None)\<rparr>"
  let ?s1 = "initialState\<lparr>ht := [[StringBig ''B''] \<mapsto> [NumberInt64 2, NumberInt64 11]],
          recordStore := Some [([StringBig ''A''], [NumberInt64 3, NumberInt64 7]),
                               ([StringBig ''B''], [NumberInt64 1, NumberInt64 3])]\<rparr>"
  have i: "initialState\<lparr>ht := Map.empty, isDone := (if False then False else isDone initialState)\<rparr> = initialState"
    by (simp add: initialState_def)
  have w: "\<forall>env \<in> set exampleInput. wellFormedBatch ?st env \<and> tokenizerValidOn ?st env"
    by (simp add: exampleInput_def wf_defs tokenizerValidOn_def validTokenizedBlock_tokenizeBlock)
  have r: "recordStore initialState = None" by (simp add: initialState_def)
  have n: "0 < spillsDuring ?st exampleInput
      (initialState\<lparr>ht := Map.empty, isDone := (if False then False else isDone initialState)\<rparr>)"
    unfolding i spillExample_spillsDuring by simp
  have sk: "streamKeys ?st exampleInput \<subseteq> set [[StringBig ''A''], [StringBig ''B''], [StringBig ''C'']]"
    by (simp add: streamKeys_def selectedKeys_def selectedRows_def rowKey_def exampleInput_def wf_defs)
  have en: "htIterEnumerates ?st (streamKeys ?st exampleInput)"
    by (rule htIterEnumerates_iterKeys [OF _ _ sk]) (simp_all add: exampleStage_def)
  have l: "leftoverRecords ?st ?s1 = [([StringBig ''B''], [NumberInt64 2, NumberInt64 11])]"
    by (simp add: leftoverRecords_def exampleStage_def iterKeys_def List.map_filter_def)
  obtain s1 s' earlier where c: "consumeInput ?st exampleInput
      (initialState\<lparr>ht := Map.empty, isDone := (if False then False else isDone initialState)\<rparr>) = Inr s1"
    and o: "openStage ?st False exampleInput initialState = Inr s'"
    and e: "recordStore s1 = Some earlier"
    and h: "ht s' = Map.empty"
    and rs: "recordStore s' = Some (earlier @ leftoverRecords ?st s1)"
    and cu: "rsCursor s' = earlier @ leftoverRecords ?st s1"
    using final_spill [OF w en r n] by blast
  have s1: "s1 = ?s1" using c unfolding i spillExample_consumeInput by simp
  have e': "earlier = [([StringBig ''A''], [NumberInt64 3, NumberInt64 7]),
                       ([StringBig ''B''], [NumberInt64 1, NumberInt64 3])]"
    using e unfolding s1 by simp
  have 4: "\<exists>s'. openStage ?st False exampleInput initialState = Inr s' \<and>
         ht s' = Map.empty \<and>
         recordStore s' = Some [([StringBig ''A''], [NumberInt64 3, NumberInt64 7]),
                                ([StringBig ''B''], [NumberInt64 1, NumberInt64 3]),
                                ([StringBig ''B''], [NumberInt64 2, NumberInt64 11])] \<and>
         rsCursor s' = [([StringBig ''A''], [NumberInt64 3, NumberInt64 7]),
                        ([StringBig ''B''], [NumberInt64 1, NumberInt64 3]),
                        ([StringBig ''B''], [NumberInt64 2, NumberInt64 11])]"
    using o h rs cu unfolding s1 e' l by auto
  have 3: "\<not> exceedsMemoryBudget ?st [[StringBig ''B''] \<mapsto> [NumberInt64 2, NumberInt64 11]]"
    by simp
  show ?thesis
    by (intro conjI) (rule spillExample_spillsDuring, rule spillExample_consumeInput, rule 3, rule 4)
qed

lemma blockAggsHonorMask_countSumStage: "blockAggsHonorMask countSumStage"
  by (simp add: blockAggsHonorMask_def countSumStage_def countBlockAgg_def)

lemma blockAggsHonorMask_exampleStage: "blockAggsHonorMask exampleStage"
proof -
  have "sumBlockAgg bits d1 prev = sumBlockAgg bits d2 prev"
    if h: "\<forall>r \<in> set (selectedRows bits). rowData d1 r = rowData d2 r" for bits d1 d2 prev
  proof -
    have m: "map (\<lambda>r. case d1 of [] \<Rightarrow> 0 | d # _ \<Rightarrow> numberOf (d ! r)) (selectedRows bits) =
          map (\<lambda>r. case d2 of [] \<Rightarrow> 0 | d # _ \<Rightarrow> numberOf (d ! r)) (selectedRows bits)"
    proof (rule map_cong [OF refl])
      fix r assume "r \<in> set (selectedRows bits)"
      then have "rowData d1 r = rowData d2 r" using h by blast
      then show "(case d1 of [] \<Rightarrow> 0 | d # _ \<Rightarrow> numberOf (d ! r)) =
                 (case d2 of [] \<Rightarrow> 0 | d # _ \<Rightarrow> numberOf (d ! r))"
        by (cases d1; cases d2) (simp_all add: rowData_def)
    qed
    show ?thesis unfolding sumBlockAgg_def m by (rule refl)
  qed
  then show ?thesis
    by (simp add: blockAggsHonorMask_def exampleStage_def countBlockAgg_def)
qed

text \<open>
  Honoring the bitset alone does not make the unselected rows irrelevant. The two
  batches below agree on their selected rows (the first and the last, both of key A);
  the unselected rows of the first carry five more keys, so it takes the row-wise path
  and SUM gives 8, while the second is tokenized and COUNT gives 2.
\<close>

theorem unselected_rows_choose_path:
  "blockAggsHonorMask countSumStage \<and>
   list_all2 (agreeOnSelected countSumStage)
     [batch [True, False, False, False, False, False, True]
        [''A'', ''B'', ''C'', ''D'', ''E'', ''F'', ''A''] [1, 20, 30, 40, 50, 60, 7]]
     [batch [True, False, False, False, False, False, True]
        [''A'', ''A'', ''A'', ''A'', ''A'', ''A'', ''A''] [1, 2, 3, 4, 5, 6, 7]] \<and>
   list_all (\<lambda>env. wellFormedBatch countSumStage env \<and> tokenizerValidOn countSumStage env)
     [batch [True, False, False, False, False, False, True]
        [''A'', ''B'', ''C'', ''D'', ''E'', ''F'', ''A''] [1, 20, 30, 40, 50, 60, 7],
      batch [True, False, False, False, False, False, True]
        [''A'', ''A'', ''A'', ''A'', ''A'', ''A'', ''A''] [1, 2, 3, 4, 5, 6, 7]] \<and>
   runStage countSumStage
     [batch [True, False, False, False, False, False, True]
        [''A'', ''B'', ''C'', ''D'', ''E'', ''F'', ''A''] [1, 20, 30, 40, 50, 60, 7]] 5 =
     Some (Inr [([StringBig ''A''], [NumberInt64 8])]) \<and>
   runStage countSumStage
     [batch [True, False, False, False, False, False, True]
        [''A'', ''A'', ''A'', ''A'', ''A'', ''A'', ''A''] [1, 2, 3, 4, 5, 6, 7]] 5 =
     Some (Inr [([StringBig ''A''], [NumberInt64 2])])"
proof (intro conjI)
  show "blockAggsHonorMask countSumStage" by (rule blockAggsHonorMask_countSumStage)
  show "list_all2 (agreeOnSelected countSumStage)
     [batch [True, False, False, False, False, False, True]
        [''A'', ''B'', ''C'', ''D'', ''E'', ''F'', ''A''] [1, 20, 30, 40, 50, 60, 7]]
     [batch [True, False, False, False, False, False, True]
        [''A'', ''A'', ''A'', ''A'', ''A'', ''A'', ''A''] [1, 2, 3, 4, 5, 6, 7]]"
    by (simp add: agreeOnSelected_def selectedRows_def rowKey_def rowData_def wf_defs countSumStage_def)
  show "list_all (\<lambda>env. wellFormedBatch countSumStage env \<and> tokenizerValidOn countSumStage env)
     [batch [True, False, False, False, False, False, True]
        [''A'', ''B'', ''C'', ''D'', ''E'', ''F'', ''A''] [1, 20, 30, 40, 50, 60, 7],
      batch [True, False, False, False, False, False, True]
        [''A'', ''A'', ''A'', ''A'', ''A'', ''A'', ''A''] [1, 2, 3, 4, 5, 6, 7]]"
    by (simp add: wf_defs tokenizerValidOn_def validTokenizedBlock_tokenizeBlock countSumStage_def)
  show "runStage countSumStage
     [batch [True, False, False, False, False, False, True]
        [''A'', ''B'', ''C'', ''D'', ''E'', ''F'', ''A''] [1, 20, 30, 40, 50, 60, 7]] 5 =
     Some (Inr [([StringBig ''A''], [NumberInt64 8])])"
    by (simp add: countSumStage_def eval_defs eval_nat_numeral)
  show "runStage countSumStage
     [batch [True, False, False, False, False, False, True]
        [''A'', ''A'', ''A'', ''A'', ''A'', ''A'', ''A''] [1, 2, 3, 4, 5, 6, 7]] 5 =
     Some (Inr [([StringBig ''A''], [NumberInt64 2])])"
    by (simp add: countSumStage_def eval_defs eval_nat_numeral)
qed







end
